theory Spec2Isabelle
  imports Complex_Main "HOL-Library.Word" "HOL-Library.Log_Nat"
begin

unbundle bit_operations_syntax

section \<open>The HX711 driver (src/HX711.ts)\<close>

subsection \<open>Numbers\<close>

text \<open>
  A TypeScript \<open>number\<close> is a binary64 floating-point number. A finite non-zero value
  is kept as the rational it denotes, \<open>Fin 0\<close> is the positive zero, and the negative
  zero, the two infinities and NaN are values of their own. The integers that the bit
  operations and the loop counters work on stay integers.
\<close>

datatype number = Fin rat | NegZero | PosInf | NegInf | NaN

fun is_zero :: "number \<Rightarrow> bool" where
  "is_zero (Fin r) = (r = 0)"
| "is_zero NegZero = True"
| "is_zero _ = False"

fun is_inf :: "number \<Rightarrow> bool" where
  "is_inf PosInf = True"
| "is_inf NegInf = True"
| "is_inf _ = False"

fun is_finite :: "number \<Rightarrow> bool" where
  "is_finite (Fin r) = True"
| "is_finite NegZero = True"
| "is_finite _ = False"

fun sign_bit :: "number \<Rightarrow> bool" where
  "sign_bit (Fin r) = (r < 0)"
| "sign_bit NegZero = True"
| "sign_bit PosInf = False"
| "sign_bit NegInf = True"
| "sign_bit NaN = False"

fun rat_of :: "number \<Rightarrow> rat" where
  "rat_of (Fin r) = r"
| "rat_of _ = 0"

definition signed_zero :: "bool \<Rightarrow> number" where
  "signed_zero neg = (if neg then NegZero else Fin 0)"

definition signed_inf :: "bool \<Rightarrow> number" where
  "signed_inf neg = (if neg then NegInf else PosInf)"

text \<open>
  Rounding of an exact result to binary64, to nearest with ties to even. \<open>flog2 a\<close> is
  the exponent of the power of two at or below \<open>a > 0\<close>; below \<open>2^-1022\<close> the exponent
  stays at -1022 (subnormal numbers). The significand has 53 bits, so the results are
  the multiples of \<open>2^(e - 52)\<close>. A result that rounds to \<open>2^1024\<close> or more is an
  infinity, one that rounds to nothing is a zero, each with the sign of the exact result.
\<close>

definition pow2 :: "int \<Rightarrow> rat" where
  "pow2 e = (if 0 \<le> e then 2 ^ nat e else 1 / 2 ^ nat (- e))"

definition flog2 :: "rat \<Rightarrow> int" where
  "flog2 a =
     (case quotient_of a of (p, q) \<Rightarrow>
        let d = bitlen p - bitlen q in if pow2 d \<le> a then d else d - 1)"

definition round_half_even :: "rat \<Rightarrow> int" where
  "round_half_even q =
     (let f = \<lfloor>q\<rfloor>; r = q - of_int f
      in if r < 1 / 2 then f else if 1 / 2 < r then f + 1 else if even f then f else f + 1)"

definition round64 :: "rat \<Rightarrow> number" where
  "round64 x =
     (if x = 0 then Fin 0
      else
        let e = max (flog2 \<bar>x\<bar>) (- 1022);
            u = pow2 (e - 52);
            n = round_half_even (\<bar>x\<bar> / u);
            y = of_int n * u
        in if 2 ^ 1024 \<le> y then signed_inf (x < 0)
           else if n = 0 then signed_zero (x < 0)
           else Fin (if x < 0 then - y else y))"

fun num_neg :: "number \<Rightarrow> number" where
  "num_neg (Fin r) = (if r = 0 then NegZero else Fin (- r))"
| "num_neg NegZero = Fin 0"
| "num_neg PosInf = NegInf"
| "num_neg NegInf = PosInf"
| "num_neg NaN = NaN"

text \<open>
  \<open>x + y\<close>: opposite infinities give NaN; only \<open>-0 + -0\<close> is \<open>-0\<close>, and an exact sum
  of zero is \<open>+0\<close>; otherwise the exact sum is rounded.
\<close>

definition num_add :: "number \<Rightarrow> number \<Rightarrow> number" where
  "num_add x y =
     (if x = NaN \<or> y = NaN then NaN
      else if is_inf x then (if is_inf y \<and> x \<noteq> y then NaN else x)
      else if is_inf y then y
      else if x = NegZero \<and> y = NegZero then NegZero
      else round64 (rat_of x + rat_of y))"

definition num_sub :: "number \<Rightarrow> number \<Rightarrow> number" where
  "num_sub x y = num_add x (num_neg y)"

text \<open>
  \<open>x * y\<close>: infinity times zero is NaN; the sign is the exclusive or of the signs;
  the exact product of two non-zero finite values is rounded.
\<close>

definition num_mul :: "number \<Rightarrow> number \<Rightarrow> number" where
  "num_mul x y =
     (if x = NaN \<or> y = NaN then NaN
      else if is_inf x \<or> is_inf y then
        (if is_zero x \<or> is_zero y then NaN else signed_inf (sign_bit x \<noteq> sign_bit y))
      else if is_zero x \<or> is_zero y then signed_zero (sign_bit x \<noteq> sign_bit y)
      else round64 (rat_of x * rat_of y))"

text \<open>
  \<open>x / y\<close>: no division raises. \<open>0 / 0\<close> and \<open>\<infinity> / \<infinity>\<close> are NaN, a non-zero value
  over a zero is an infinity, a finite value over an infinity is a zero; the exact
  quotient of two non-zero finite values is rounded.
\<close>

definition num_div :: "number \<Rightarrow> number \<Rightarrow> number" where
  "num_div x y =
     (if x = NaN \<or> y = NaN then NaN
      else if is_inf x then
        (if is_inf y then NaN else signed_inf (sign_bit x \<noteq> sign_bit y))
      else if is_inf y then signed_zero (sign_bit x \<noteq> sign_bit y)
      else if is_zero y then
        (if is_zero x then NaN else signed_inf (sign_bit x \<noteq> sign_bit y))
      else if is_zero x then signed_zero (sign_bit x \<noteq> sign_bit y)
      else round64 (rat_of x / rat_of y))"

text \<open>The number that an integer becomes, as \<open>read\<close> returns and the sample counts are.\<close>

definition num_of_int :: "int \<Rightarrow> number" where
  "num_of_int k = round64 (of_int k)"

subsection \<open>The platform: pins, delays and the trace of calls\<close>

datatype DigitalPin =
  P0 | P1 | P2 | P3 | P4 | P5 | P6 | P7 | P8 | P9 | P10
  | P11 | P12 | P13 | P14 | P15 | P16 | P19 | P20

text \<open>
  The calls the driver can make on the platform, in the order made. \<open>DigitalRead\<close>
  and \<open>RunningTime\<close> carry what the platform answered. \<open>NoInterrupts\<close> and
  \<open>Interrupts\<close> are the two calls that the comment in \<open>read\<close> (lines 89 to 93)
  names for bracketing a critical section; no function of the module makes them.
\<close>

datatype event =
  DigitalWrite DigitalPin int
  | DigitalRead DigitalPin int
  | WaitMicros int
  | Pause int
  | RunningTime int
  | NoInterrupts
  | Interrupts

text \<open>
  The module's variables (lines 9 to 14), and the world they run in: \<open>line\<close> gives
  the level that the k-th call of \<open>pins.digitalReadPin\<close> answers, \<open>nread\<close> counts
  the calls made so far, \<open>clock\<close> and \<open>ntime\<close> do the same for
  \<open>input.runningTime\<close>, and \<open>events\<close> is the trace. \<open>GAIN\<close> only ever holds 0, 1,
  2 or 3 and is a natural number; the arguments that select or count (gain, bit order,
  retries, sample counts, delays) and the pin levels are integers.
\<close>

record state =
  PD_SCK :: DigitalPin
  DOUT :: DigitalPin
  GAIN :: nat
  OFFSET :: number
  SCALE :: number
  CAL_RATIO :: number
  line :: "nat \<Rightarrow> int"
  nread :: nat
  clock :: "nat \<Rightarrow> int"
  ntime :: nat
  events :: "event list"

definition initial :: "(nat \<Rightarrow> int) \<Rightarrow> (nat \<Rightarrow> int) \<Rightarrow> state" where
  "initial env clk =
     \<lparr>PD_SCK = P0, DOUT = P8, GAIN = 0, OFFSET = Fin 0, SCALE = Fin 1,
      CAL_RATIO = Fin 1, line = env, nread = 0, clock = clk, ntime = 0, events = []\<rparr>"

definition digitalWritePin :: "DigitalPin \<Rightarrow> int \<Rightarrow> state \<Rightarrow> state" where
  "digitalWritePin pin lvl s = s\<lparr>events := events s @ [DigitalWrite pin lvl]\<rparr>"

definition digitalReadPin :: "DigitalPin \<Rightarrow> state \<Rightarrow> int \<times> state" where
  "digitalReadPin pin s =
     (line s (nread s),
      s\<lparr>nread := nread s + 1, events := events s @ [DigitalRead pin (line s (nread s))]\<rparr>)"

definition waitMicros :: "int \<Rightarrow> state \<Rightarrow> state" where
  "waitMicros us s = s\<lparr>events := events s @ [WaitMicros us]\<rparr>"

definition pause :: "int \<Rightarrow> state \<Rightarrow> state" where
  "pause ms s = s\<lparr>events := events s @ [Pause ms]\<rparr>"

definition runningTime :: "state \<Rightarrow> int \<times> state" where
  "runningTime s =
     (clock s (ntime s),
      s\<lparr>ntime := ntime s + 1, events := events s @ [RunningTime (clock s (ntime s))]\<rparr>)"

subsection \<open>The conversion protocol\<close>

definition is_ready :: "state \<Rightarrow> bool \<times> state" where
  "is_ready s = (case digitalReadPin (DOUT s) s of (lvl, s1) \<Rightarrow> (lvl = 0, s1))"

text \<open>
  \<open>shiftInSlow\<close> (lines 55 to 68). The accumulator is a 32-bit word, as \<open>|=\<close> and
  \<open><<\<close> work on 32-bit integers; the loop counter runs from 0 while \<open>i < 8\<close>.
\<close>

function shiftInSlow_loop :: "int \<Rightarrow> nat \<Rightarrow> 32 word \<Rightarrow> state \<Rightarrow> 32 word \<times> state" where
  "shiftInSlow_loop bitOrder i val s =
     (if i < 8 then
        (let s1 = digitalWritePin (PD_SCK s) 1 s;
             s2 = waitMicros 1 s1;
             (lvl, s3) = digitalReadPin (DOUT s2) s2;
             val1 = (if bitOrder = 0 then val OR push_bit i (word_of_int lvl)
                     else val OR push_bit (7 - i) (word_of_int lvl));
             s4 = digitalWritePin (PD_SCK s3) 0 s3;
             s5 = waitMicros 1 s4
         in shiftInSlow_loop bitOrder (i + 1) val1 s5)
      else (val, s))"
  by pat_completeness auto
termination
  by (relation "measure (\<lambda>(bitOrder, i, val, s). 8 - i)") auto

declare shiftInSlow_loop.simps [simp del]

definition shiftInSlow :: "int \<Rightarrow> state \<Rightarrow> 32 word \<times> state" where
  "shiftInSlow bitOrder s = shiftInSlow_loop bitOrder 0 0 s"

text \<open>
  \<open>wait_ready\<close> (lines 128 to 135) polls until the data line reads 0, with no bound:
  on a line that never reads 0 it does not return, which is the value \<open>None\<close>.
\<close>

partial_function (option) wait_ready :: "int \<Rightarrow> state \<Rightarrow> state option" where
  "wait_ready delay_ms s =
     (case is_ready s of (r, s1) \<Rightarrow>
        if r then Some s1 else wait_ready delay_ms (pause delay_ms s1))"

declare wait_ready.simps [code]

text \<open>The trailing pulses of \<open>read\<close> (lines 107 to 113): \<open>for (i = 0; i < GAIN; i++)\<close>.\<close>

function gain_loop :: "nat \<Rightarrow> state \<Rightarrow> state" where
  "gain_loop i s =
     (if i < GAIN s then
        (let s1 = digitalWritePin (PD_SCK s) 1 s;
             s2 = waitMicros 1 s1;
             s3 = digitalWritePin (PD_SCK s2) 0 s2;
             s4 = waitMicros 1 s3
         in gain_loop (i + 1) s4)
      else s)"
  by pat_completeness auto
termination
  by (relation "measure (\<lambda>(i, s). GAIN s - i)")
     (auto simp: digitalWritePin_def waitMicros_def)

declare gain_loop.simps [simp del]

text \<open>
  \<open>read\<close> (lines 72 to 126). Between the readiness wait and the shift-in the source
  makes no call: the critical section of the comment is skipped (line 95).
\<close>

definition read :: "state \<Rightarrow> (int \<times> state) option" where
  "read s =
     (case wait_ready 0 s of
        None \<Rightarrow> None
      | Some s1 \<Rightarrow>
          (let data0 = [0, 0, 0 :: 32 word];
               (b2, s2) = shiftInSlow 1 s1;
               data1 = data0[2 := b2];
               (b1, s3) = shiftInSlow 1 s2;
               data2 = data1[1 := b1];
               (b0, s4) = shiftInSlow 1 s3;
               data = data2[0 := b0];
               s5 = gain_loop 0 s4;
               filler = (if data ! 2 AND 0x80 \<noteq> 0 then 0xff else 0x00 :: 32 word);
               val = push_bit 24 filler OR push_bit 16 (data ! 2)
                       OR push_bit 8 (data ! 1) OR data ! 0
           in Some (sint val, s5)))"

text \<open>
  \<open>set_gain\<close> (lines 39 to 53): the \<open>switch\<close> has no default case, so any other
  argument leaves \<open>GAIN\<close> as it was; the clock is then driven low and one \<open>read\<close>
  is made, whose result is dropped.
\<close>

definition set_gain :: "int \<Rightarrow> state \<Rightarrow> state option" where
  "set_gain gain s =
     (let s1 = (if gain = 128 then s\<lparr>GAIN := 1\<rparr>
                else if gain = 64 then s\<lparr>GAIN := 3\<rparr>
                else if gain = 32 then s\<lparr>GAIN := 2\<rparr>
                else s);
          s2 = digitalWritePin (PD_SCK s1) 0 s1
      in case read s2 of None \<Rightarrow> None | Some (v, s3) \<Rightarrow> Some s3)"

text \<open>\<open>begin\<close> (lines 28 to 33), named \<open>begin_hx\<close> here.\<close>

definition begin_hx :: "DigitalPin \<Rightarrow> DigitalPin \<Rightarrow> state \<Rightarrow> state option" where
  "begin_hx pinDOUT pinPD_SCK s = set_gain 128 (s\<lparr>PD_SCK := pinPD_SCK, DOUT := pinDOUT\<rparr>)"

text \<open>\<open>wait_ready_retry\<close> (lines 137 to 149): \<open>count\<close> runs from 0 while \<open>count < retries\<close>.\<close>

function wait_ready_retry_loop :: "int \<Rightarrow> int \<Rightarrow> int \<Rightarrow> state \<Rightarrow> bool \<times> state" where
  "wait_ready_retry_loop retries delay_ms count s =
     (if count < retries then
        (case is_ready s of (r, s1) \<Rightarrow>
           if r then (True, s1)
           else wait_ready_retry_loop retries delay_ms (count + 1) (pause delay_ms s1))
      else (False, s))"
  by pat_completeness auto
termination
  by (relation "measure (\<lambda>(retries, delay_ms, count, s). nat (retries - count))") auto

declare wait_ready_retry_loop.simps [simp del]

definition wait_ready_retry :: "int \<Rightarrow> int \<Rightarrow> state \<Rightarrow> bool \<times> state" where
  "wait_ready_retry retries delay_ms s = wait_ready_retry_loop retries delay_ms 0 s"

text \<open>
  \<open>wait_ready_timeout\<close> (lines 151 to 162): the loop ends when the platform's clock
  has advanced by \<open>timeout\<close>, or the line reads ready; on a clock that stands still
  and a line that is never ready it does not return.
\<close>

partial_function (option) wait_ready_timeout_loop ::
  "int \<Rightarrow> int \<Rightarrow> int \<Rightarrow> state \<Rightarrow> (bool \<times> state) option" where
  "wait_ready_timeout_loop timeout delay_ms millisStarted s =
     (case runningTime s of (now, s1) \<Rightarrow>
        if now - millisStarted < timeout then
          (case is_ready s1 of (r, s2) \<Rightarrow>
             if r then Some (True, s2)
             else wait_ready_timeout_loop timeout delay_ms millisStarted (pause delay_ms s2))
        else Some (False, s1))"

declare wait_ready_timeout_loop.simps [code]

definition wait_ready_timeout :: "int \<Rightarrow> int \<Rightarrow> state \<Rightarrow> (bool \<times> state) option" where
  "wait_ready_timeout timeout delay_ms s =
     (case runningTime s of (millisStarted, s1) \<Rightarrow>
        wait_ready_timeout_loop timeout delay_ms millisStarted s1)"

subsection \<open>Calibration and units\<close>

text \<open>
  \<open>read_average\<close> (lines 166 to 174), its \<open>times\<close> and \<open>sum\<close> written
  \<open>ntimes\<close> and \<open>acc\<close>: \<open>sum\<close> starts at 0, each turn adds one \<open>read\<close>
  and yields with \<open>basic.pause(0)\<close>; the result is \<open>sum / times\<close>.
\<close>

function read_average_loop :: "int \<Rightarrow> int \<Rightarrow> number \<Rightarrow> state \<Rightarrow> (number \<times> state) option" where
  "read_average_loop ntimes i acc s =
     (if i < ntimes then
        (case read s of
           None \<Rightarrow> None
         | Some (v, s1) \<Rightarrow>
             read_average_loop ntimes (i + 1) (num_add acc (num_of_int v)) (pause 0 s1))
      else Some (acc, s))"
  by pat_completeness auto
termination
  by (relation "measure (\<lambda>(ntimes, i, acc, s). nat (ntimes - i))") auto

declare read_average_loop.simps [simp del]

definition read_average :: "int \<Rightarrow> state \<Rightarrow> (number \<times> state) option" where
  "read_average ntimes s =
     (case read_average_loop ntimes 0 (Fin 0) s of
        None \<Rightarrow> None
      | Some (acc, s1) \<Rightarrow> Some (num_div acc (num_of_int ntimes), s1))"

text \<open>
  \<open>get_value\<close>, \<open>calibrate\<close>, \<open>get_units\<close> (lines 178 to 204): each reads the
  module's variables after the call it makes has returned.
\<close>

definition get_value :: "int \<Rightarrow> state \<Rightarrow> (number \<times> state) option" where
  "get_value ntimes s =
     (case read_average ntimes s of
        None \<Rightarrow> None
      | Some (avg, s1) \<Rightarrow> Some (num_sub avg (OFFSET s1), s1))"

definition calibrate :: "number \<Rightarrow> state \<Rightarrow> state option" where
  "calibrate weight s =
     (case get_value 10 s of
        None \<Rightarrow> None
      | Some (v, s1) \<Rightarrow> Some (s1\<lparr>CAL_RATIO := num_div weight (num_div v (SCALE s1))\<rparr>))"

definition get_units :: "int \<Rightarrow> state \<Rightarrow> (number \<times> state) option" where
  "get_units ntimes s =
     (case get_value ntimes s of
        None \<Rightarrow> None
      | Some (v, s1) \<Rightarrow>
          (let valor = num_div (num_mul v (CAL_RATIO s1)) (SCALE s1)
           in Some (valor, s1)))"

definition set_scale :: "number \<Rightarrow> state \<Rightarrow> state" where
  "set_scale scale s = s\<lparr>SCALE := scale\<rparr>"

definition get_scale :: "state \<Rightarrow> number" where
  "get_scale s = SCALE s"

definition set_offset :: "number \<Rightarrow> state \<Rightarrow> state" where
  "set_offset offset s = s\<lparr>OFFSET := offset\<rparr>"

definition get_offset :: "state \<Rightarrow> number" where
  "get_offset s = OFFSET s"

definition tare :: "int \<Rightarrow> state \<Rightarrow> state option" where
  "tare ntimes s =
     (case read_average ntimes s of
        None \<Rightarrow> None
      | Some (acc, s1) \<Rightarrow> Some (set_offset acc s1))"

definition power_up :: "state \<Rightarrow> state" where
  "power_up s = digitalWritePin (PD_SCK s) 0 s"

definition power_down :: "state \<Rightarrow> state" where
  "power_down s =
     (let s1 = digitalWritePin (PD_SCK s) 0 s in digitalWritePin (PD_SCK s1) 1 s1)"

section \<open>Programs over the exported functions\<close>

text \<open>
  A call of one exported function with its arguments, \<open>exec\<close> for its effect on the
  state (results dropped), and \<open>run\<close> for a sequence of calls. A call that does not
  return makes the whole run \<open>None\<close>.
\<close>

datatype call =
  Begin DigitalPin DigitalPin
  | IsReady
  | SetGain int
  | ShiftInSlow int
  | Read
  | WaitReady int
  | WaitReadyRetry int int
  | WaitReadyTimeout int int
  | ReadAverage int
  | GetValue int
  | Calibrate number
  | GetUnits int
  | Tare int
  | SetScale number
  | GetScale
  | SetOffset number
  | GetOffset
  | PowerUp
  | PowerDown

fun exec :: "call \<Rightarrow> state \<Rightarrow> state option" where
  "exec (Begin pinDOUT pinPD_SCK) s = begin_hx pinDOUT pinPD_SCK s"
| "exec IsReady s = Some (snd (is_ready s))"
| "exec (SetGain gain) s = set_gain gain s"
| "exec (ShiftInSlow bitOrder) s = Some (snd (shiftInSlow bitOrder s))"
| "exec Read s = map_option snd (read s)"
| "exec (WaitReady delay_ms) s = wait_ready delay_ms s"
| "exec (WaitReadyRetry retries delay_ms) s = Some (snd (wait_ready_retry retries delay_ms s))"
| "exec (WaitReadyTimeout timeout delay_ms) s = map_option snd (wait_ready_timeout timeout delay_ms s)"
| "exec (ReadAverage ntimes) s = map_option snd (read_average ntimes s)"
| "exec (GetValue ntimes) s = map_option snd (get_value ntimes s)"
| "exec (Calibrate weight) s = calibrate weight s"
| "exec (GetUnits ntimes) s = map_option snd (get_units ntimes s)"
| "exec (Tare ntimes) s = tare ntimes s"
| "exec (SetScale scale) s = Some (set_scale scale s)"
| "exec GetScale s = Some s"
| "exec (SetOffset offset) s = Some (set_offset offset s)"
| "exec GetOffset s = Some s"
| "exec PowerUp s = Some (power_up s)"
| "exec PowerDown s = Some (power_down s)"

fun run :: "call list \<Rightarrow> state \<Rightarrow> state option" where
  "run [] s = Some s"
| "run (c # cs) s = (case exec c s of None \<Rightarrow> None | Some s1 \<Rightarrow> run cs s1)"

text \<open>The calls that reach the \<open>switch\<close> of \<open>set_gain\<close>.\<close>

fun selects_gain :: "call \<Rightarrow> bool" where
  "selects_gain (Begin pinDOUT pinPD_SCK) = True"
| "selects_gain (SetGain gain) = True"
| "selects_gain _ = False"

section \<open>Traces and decoded values, for stating the properties\<close>

text \<open>\<open>levels env k n\<close>: the \<open>n\<close> levels that the reads number \<open>k\<close>, \<open>k + 1\<close>, ... answer.\<close>

definition levels :: "(nat \<Rightarrow> int) \<Rightarrow> nat \<Rightarrow> nat \<Rightarrow> int list" where
  "levels env k n = map (\<lambda>i. env (k + i)) [0..<n]"

text \<open>
  \<open>ready_after s j\<close>: from state \<open>s\<close> on, the data line reads not ready \<open>j\<close> times
  and ready (level 0) at the next read.
\<close>

definition ready_after :: "state \<Rightarrow> nat \<Rightarrow> bool" where
  "ready_after s j =
     (line s (nread s + j) = 0 \<and> (\<forall>l \<in> set (levels (line s) (nread s) j). l \<noteq> 0))"

text \<open>
  The platform calls of one data bit (clock high, hold, sample, clock low, hold), of
  one trailing pulse (clock high, hold, clock low, hold), and of the polls that found
  the line not ready.
\<close>

definition bit_cycle :: "DigitalPin \<Rightarrow> DigitalPin \<Rightarrow> int \<Rightarrow> event list" where
  "bit_cycle sck dout lvl =
     [DigitalWrite sck 1, WaitMicros 1, DigitalRead dout lvl, DigitalWrite sck 0, WaitMicros 1]"

definition shift_events :: "DigitalPin \<Rightarrow> DigitalPin \<Rightarrow> int list \<Rightarrow> event list" where
  "shift_events sck dout ls = concat (map (bit_cycle sck dout) ls)"

definition gain_pulse :: "DigitalPin \<Rightarrow> event list" where
  "gain_pulse sck = [DigitalWrite sck 1, WaitMicros 1, DigitalWrite sck 0, WaitMicros 1]"

definition poll_events :: "DigitalPin \<Rightarrow> int \<Rightarrow> int list \<Rightarrow> event list" where
  "poll_events dout ms ls = concat (map (\<lambda>l. [DigitalRead dout l, Pause ms]) ls)"

text \<open>
  The calls of one \<open>read\<close> that finds the line ready at poll \<open>j\<close>: the polls, the 24
  bit cycles, then \<open>k\<close> trailing pulses.
\<close>

definition read_events :: "state \<Rightarrow> nat \<Rightarrow> nat \<Rightarrow> event list" where
  "read_events s j k =
     poll_events (DOUT s) 0 (levels (line s) (nread s) j) @ [DigitalRead (DOUT s) 0]
     @ shift_events (PD_SCK s) (DOUT s) (levels (line s) (nread s + j + 1) 24)
     @ concat (replicate k (gain_pulse (PD_SCK s)))"

text \<open>
  The loop of \<open>shiftInSlow\<close> with \<open>bitOrder \<noteq> 0\<close> as a recursion over the sampled levels,
  and the value \<open>read\<close> builds from 24 of them (lines 115 to 125).
\<close>

fun msb_acc :: "nat \<Rightarrow> 32 word \<Rightarrow> int list \<Rightarrow> 32 word" where
  "msb_acc i val [] = val"
| "msb_acc i val (l # ls) = msb_acc (i + 1) (val OR push_bit (7 - i) (word_of_int l)) ls"

definition raw_value :: "int list \<Rightarrow> int" where
  "raw_value ls =
     (let b2 = msb_acc 0 0 (take 8 ls);
          b1 = msb_acc 0 0 (take 8 (drop 8 ls));
          b0 = msb_acc 0 0 (drop 16 ls);
          filler = (if b2 AND 0x80 \<noteq> 0 then 0xff else 0x00 :: 32 word)
      in sint (push_bit 24 filler OR push_bit 16 b2 OR push_bit 8 b1 OR b0))"

text \<open>
  What the specification says of the sample: three bytes, most significant byte first,
  each byte most significant bit first, read as a 24-bit two's-complement number.
\<close>

definition bits_value :: "int list \<Rightarrow> int" where
  "bits_value bs = foldl (\<lambda>a b. 2 * a + b) 0 bs"

definition twos_complement24 :: "int \<Rightarrow> int" where
  "twos_complement24 u = (if u < 2 ^ 23 then u else u - 2 ^ 24)"

definition decode24 :: "int list \<Rightarrow> int" where
  "decode24 bs =
     twos_complement24
       (65536 * bits_value (take 8 bs) + 256 * bits_value (take 8 (drop 8 bs))
        + bits_value (drop 16 bs))"

text \<open>The level last written to a pin in a trace, if any.\<close>

fun last_write :: "DigitalPin \<Rightarrow> event list \<Rightarrow> int option" where
  "last_write pin [] = None"
| "last_write pin (e # es) =
     (case last_write pin es of
        Some lvl \<Rightarrow> Some lvl
      | None \<Rightarrow> (case e of DigitalWrite p lvl \<Rightarrow> if p = pin then Some lvl else None | _ \<Rightarrow> None))"

text \<open>
  \<open>n\<close> consecutive calls of \<open>read\<close>, each followed by the \<open>basic.pause(0)\<close> of
  \<open>read_average\<close>, with the list of the values returned.
\<close>

fun read_seq :: "nat \<Rightarrow> state \<Rightarrow> (int list \<times> state) option" where
  "read_seq 0 s = Some ([], s)"
| "read_seq (Suc n) s =
     (case read s of
        None \<Rightarrow> None
      | Some (v, s1) \<Rightarrow>
          (case read_seq n (pause 0 s1) of
             None \<Rightarrow> None
           | Some (vs, s2) \<Rightarrow> Some (v # vs, s2)))"

text \<open>
  \<open>vars_kept s s'\<close>: the module's variables and the environment are in \<open>s'\<close> what
  they are in \<open>s\<close>; only the counters and the trace may differ.
\<close>

definition vars_kept :: "state \<Rightarrow> state \<Rightarrow> bool" where
  "vars_kept s s' =
     (PD_SCK s' = PD_SCK s \<and> DOUT s' = DOUT s \<and> GAIN s' = GAIN s \<and> OFFSET s' = OFFSET s
      \<and> SCALE s' = SCALE s \<and> CAL_RATIO s' = CAL_RATIO s \<and> line s' = line s
      \<and> clock s' = clock s)"

text \<open>
  Environments for concrete runs: a data line that answers the listed levels and reads
  0 afterwards, a data line that is never ready, and a clock that advances by one
  millisecond per call.
\<close>

definition line_of :: "int list \<Rightarrow> nat \<Rightarrow> int" where
  "line_of ls k = (if k < length ls then ls ! k else 0)"

definition stuck_high :: "nat \<Rightarrow> int" where
  "stuck_high k = 1"

definition ticking :: "nat \<Rightarrow> int" where
  "ticking k = int k"

section \<open>Auxiliary lemmas\<close>

subsection \<open>Rounding\<close>

lemma pow2_pos: "0 < pow2 e"
  by (simp add: pow2_def)

lemma pow2_Suc: "pow2 (e + 1) = 2 * pow2 e"
proof (cases "0 \<le> e")
  case True
  then show ?thesis by (simp add: pow2_def nat_add_distrib)
next
  case False
  then have "nat (- e) = Suc (nat (- (e + 1)))" by simp
  then show ?thesis using False by (simp add: pow2_def)
qed

lemma pow2_add: "pow2 (a + b) = pow2 a * pow2 b"
proof -
  have p: "pow2 (a + int n) = pow2 a * 2 ^ n" for a n
  proof (induction n)
    case 0
    then show ?case by simp
  next
    case (Suc n)
    have "a + int (Suc n) = (a + int n) + 1" by simp
    then have "pow2 (a + int (Suc n)) = pow2 ((a + int n) + 1)" by (simp only:)
    also have "\<dots> = 2 * pow2 (a + int n)" by (rule pow2_Suc)
    finally show ?case using Suc by simp
  qed
  have m: "pow2 (a - int n) * 2 ^ n = pow2 a" for a n
    using p [of "a - int n" n] by simp
  show ?thesis
  proof (cases "0 \<le> b")
    case True
    then show ?thesis using p [of a "nat b"] by (simp add: pow2_def)
  next
    case False
    then have b: "b = - int (nat (- b))" by simp
    have "pow2 (a + b) * 2 ^ nat (- b) = pow2 a"
      using m [of a "nat (- b)"] False by simp
    then show ?thesis using False by (simp add: pow2_def field_simps)
  qed
qed

lemma pow2_mono: "a \<le> b \<Longrightarrow> pow2 a \<le> pow2 b"
proof -
  assume "a \<le> b"
  then have "pow2 b = pow2 a * 2 ^ nat (b - a)"
    using pow2_add [of a "b - a"] by (simp add: pow2_def)
  moreover have "(1::rat) \<le> 2 ^ nat (b - a)" by simp
  ultimately show ?thesis using pow2_pos [of a] by (simp add: mult_le_cancel_left1)
qed

lemma pow2_less_imp: "pow2 a < pow2 b \<Longrightarrow> a < b"
  using pow2_mono [of b a] by (cases "a < b") auto

lemma pow2_nat: "pow2 (int n) = 2 ^ n"
  by (simp add: pow2_def)

lemma flog2_bounds:
  assumes "0 < a"
  shows "pow2 (flog2 a) \<le> a" and "a < pow2 (flog2 a + 1)"
proof -
  obtain p q where pq: "quotient_of a = (p, q)" by (cases "quotient_of a")
  have q: "0 < q" using pq by (rule quotient_of_denom_pos)
  have a: "a = of_int p / of_int q" using pq by (rule quotient_of_div)
  have p: "0 < p" using assms q unfolding a by (simp add: zero_less_divide_iff)
  define d where "d = bitlen p - bitlen q"
  have bp: "2 ^ nat (bitlen p - 1) \<le> p" "p < 2 ^ nat (bitlen p)"
    using bitlen_bounds [OF p] by simp_all
  have bq: "2 ^ nat (bitlen q - 1) \<le> q" "q < 2 ^ nat (bitlen q)"
    using bitlen_bounds [OF q] by simp_all
  have lp: "1 \<le> bitlen p" and lq: "1 \<le> bitlen q"
    using p q bitlen_eq_zero_iff [of p] bitlen_eq_zero_iff [of q] bitlen_nonneg [of p]
      bitlen_nonneg [of q] by linarith+
  have rp: "pow2 (bitlen p - 1) \<le> of_int p" "of_int p < pow2 (bitlen p)"
  proof -
    have "(of_int (2 ^ nat (bitlen p - 1)) :: rat) \<le> of_int p"
      using bp(1) by (simp only: of_int_le_iff)
    then show "pow2 (bitlen p - 1) \<le> of_int p" using lp by (simp add: pow2_def)
    have "(of_int p :: rat) < of_int (2 ^ nat (bitlen p))"
      using bp(2) by (simp only: of_int_less_iff)
    then show "of_int p < pow2 (bitlen p)" using lp by (simp add: pow2_def)
  qed
  have rq: "pow2 (bitlen q - 1) \<le> of_int q" "of_int q < pow2 (bitlen q)"
  proof -
    have "(of_int (2 ^ nat (bitlen q - 1)) :: rat) \<le> of_int q"
      using bq(1) by (simp only: of_int_le_iff)
    then show "pow2 (bitlen q - 1) \<le> of_int q" using lq by (simp add: pow2_def)
    have "(of_int q :: rat) < of_int (2 ^ nat (bitlen q))"
      using bq(2) by (simp only: of_int_less_iff)
    then show "of_int q < pow2 (bitlen q)" using lq by (simp add: pow2_def)
  qed
  have qpos: "(0::rat) < of_int q" using q by simp
  have lo: "pow2 (d - 1) < a"
  proof -
    have "pow2 (d - 1) * of_int q < pow2 (d - 1) * pow2 (bitlen q)"
      using rq(2) pow2_pos [of "d - 1"] by simp
    also have "\<dots> = pow2 (bitlen p - 1)"
      using pow2_add [of "d - 1" "bitlen q"] by (simp add: d_def)
    also have "\<dots> \<le> of_int p" by (rule rp(1))
    finally show ?thesis using qpos unfolding a by (simp add: pos_less_divide_eq)
  qed
  have hi: "a < pow2 (d + 1)"
  proof -
    have "of_int p < pow2 (bitlen p)" by (rule rp(2))
    also have "\<dots> = pow2 (d + 1) * pow2 (bitlen q - 1)"
      using pow2_add [of "d + 1" "bitlen q - 1"] by (simp add: d_def)
    also have "\<dots> \<le> pow2 (d + 1) * of_int q"
      using rq(1) pow2_pos [of "d + 1"] by simp
    finally show ?thesis using qpos unfolding a by (simp add: pos_divide_less_eq)
  qed
  have f: "flog2 a = (if pow2 d \<le> a then d else d - 1)"
    by (simp add: flog2_def pq d_def Let_def)
  show "pow2 (flog2 a) \<le> a"
    using lo by (simp add: f)
  show "a < pow2 (flog2 a + 1)"
    using hi by (auto simp: f)
qed

lemma round_half_even_int: "round_half_even (of_int m) = m"
  by (simp add: round_half_even_def)

lemma round64_int:
  assumes "\<bar>k\<bar> < 2 ^ 53"
  shows "round64 (of_int k) = Fin (of_int k)"
proof (cases "k = 0")
  case True
  then show ?thesis by (simp add: round64_def)
next
  case False
  define a :: rat where "a = \<bar>of_int k\<bar>"
  have a1: "1 \<le> a" "a < 2 ^ 53"
  proof -
    have "1 \<le> \<bar>k\<bar>" using False by simp
    then have "(of_int 1 :: rat) \<le> of_int \<bar>k\<bar>" by (simp only: of_int_le_iff)
    then show "1 \<le> a" by (simp add: a_def)
    have "(of_int \<bar>k\<bar> :: rat) < of_int (2 ^ 53)" using assms by (simp only: of_int_less_iff)
    then show "a < 2 ^ 53" by (simp add: a_def)
  qed
  then have apos: "0 < a" by simp
  define e where "e = flog2 a"
  have "pow2 0 \<le> a" using a1(1) by (simp add: pow2_def)
  also have "a < pow2 (e + 1)" unfolding e_def using flog2_bounds(2) [OF apos] .
  finally have e0: "0 \<le> e" using pow2_less_imp [of 0 "e + 1"] by simp
  have "pow2 e \<le> a" unfolding e_def using flog2_bounds(1) [OF apos] .
  also have "a < pow2 53" using a1(2) by (simp add: pow2_def)
  finally have e52: "e \<le> 52" using pow2_less_imp [of e 53] by simp
  define m where "m = \<bar>k\<bar> * 2 ^ nat (52 - e)"
  have u: "pow2 (e - 52) = 1 / 2 ^ nat (52 - e)"
    using e52 by (cases "e = 52") (simp_all add: pow2_def)
  have q: "a / pow2 (e - 52) = of_int m"
    by (simp add: u m_def a_def)
  have y: "of_int m * pow2 (e - 52) = a"
    by (simp add: u m_def a_def)
  have mne: "m \<noteq> 0" using False by (simp add: m_def)
  have big: "\<not> (2 ^ 1024 \<le> a)"
  proof -
    have "(2::rat) ^ 53 \<le> 2 ^ 1024" by (rule power_increasing) simp_all
    then show ?thesis using a1(2) by simp
  qed
  have mx: "max e (- 1022) = e" using e0 by simp
  have k0: "(of_int k :: rat) \<noteq> 0" using False by simp
  have sg: "(if (of_int k :: rat) < 0 then - a else a) = of_int k"
    by (simp add: a_def)
  show ?thesis
    unfolding round64_def
    by (simp only: k0 if_False a_def [symmetric] e_def [symmetric] mx Let_def q
        round_half_even_int y big mne sg)
qed

lemma flog2_eq:
  assumes "pow2 e \<le> a" "a < pow2 (e + 1)"
  shows "flog2 a = e"
proof -
  have a: "0 < a" using pow2_pos [of e] assms(1) by simp
  have "pow2 (flog2 a) < pow2 (e + 1)"
    using flog2_bounds(1) [OF a] assms(2) by simp
  then have "flog2 a < e + 1" by (rule pow2_less_imp)
  moreover have "pow2 e < pow2 (flog2 a + 1)"
    using flog2_bounds(2) [OF a] assms(1) by simp
  then have "e < flog2 a + 1" by (rule pow2_less_imp)
  ultimately show ?thesis by simp
qed

lemma round64_eqI:
  assumes "pow2 e \<le> \<bar>x\<bar>" "\<bar>x\<bar> < pow2 (e + 1)" "- 1022 \<le> e"
    and "round_half_even (\<bar>x\<bar> / pow2 (e - 52)) = n" "n \<noteq> 0"
    and "of_int n * pow2 (e - 52) < 2 ^ 1024"
    and "y = (if x < 0 then - (of_int n * pow2 (e - 52)) else of_int n * pow2 (e - 52))"
  shows "round64 x = Fin y"
proof -
  have x: "x \<noteq> 0" using pow2_pos [of e] assms(1) by auto
  have f: "flog2 \<bar>x\<bar> = e" using assms(1,2) by (rule flog2_eq)
  have m: "max e (- 1022) = e" using assms(3) by simp
  have b: "\<not> 2 ^ 1024 \<le> rat_of_int n * pow2 (e - 52)" using assms(6) by simp
  show ?thesis
    unfolding round64_def assms(7)
    by (simp only: x if_False f m Let_def assms(4) b assms(5))
qed

lemma floor_rat_numeral_div:
  "\<lfloor>(numeral a :: rat) / numeral b\<rfloor> = numeral a div numeral b"
  using floor_divide_of_int_eq [of "numeral a" "numeral b", where ?'a = rat] by simp

lemma round64_0 [simp]: "round64 0 = Fin 0"
  by (simp add: round64_def)

lemma num_sub_self: "num_sub (Fin q) (Fin q) = Fin 0"
  by (simp add: num_sub_def num_add_def)

text \<open>The binary64 number next to 1/10, which rounding leaves as it is.\<close>

lemma round64_tenth:
  "round64 (1 / 10) = Fin (3602879701896397 / 36028797018963968)"
  "round64 (3602879701896397 / 36028797018963968)
     = Fin (3602879701896397 / 36028797018963968)"
  by (rule round64_eqI [where e = "- 4" and n = 7205759403792794];
      simp add: pow2_def round_half_even_def Let_def floor_rat_numeral_div)+

subsection \<open>Bits to bytes to the signed sample\<close>

lemma or_push_bit_add:
  "0 \<le> k \<Longrightarrow> k < 2 ^ n \<Longrightarrow> (k::int) OR push_bit n l = k + l * 2 ^ n"
  using concat_bit_eq [of n k l]
  by (simp add: concat_bit_def take_bit_int_eq_self push_bit_eq_mult)

lemma msb_acc_horner:
  "\<lbrakk>\<forall>l \<in> set ls. l = 0 \<or> l = 1; i + length ls = 8; 0 \<le> h\<rbrakk> \<Longrightarrow>
   msb_acc i (word_of_int (h * 2 ^ (8 - i))) ls = word_of_int (foldl (\<lambda>a b. 2 * a + b) h ls)"
proof (induction ls arbitrary: i h)
  case Nil
  then show ?case by simp
next
  case (Cons l ls)
  have l01: "l = 0 \<or> l = 1" using Cons.prems(1) by simp
  have i7: "i \<le> 7" using Cons.prems(2) by simp
  have e: "8 - i = Suc (7 - i)" using i7 by simp
  have lb: "0 \<le> l * 2 ^ (7 - i)" "l * 2 ^ (7 - i) < 2 ^ (8 - i)"
    using l01 by (auto simp: e)
  have "(word_of_int (h * 2 ^ (8 - i)) :: 32 word) OR push_bit (7 - i) (word_of_int l)
      = word_of_int (l * 2 ^ (7 - i) OR push_bit (8 - i) h)"
    by (simp add: of_int_or_eq push_bit_of_int push_bit_eq_mult or.commute)
  also have "l * 2 ^ (7 - i) OR push_bit (8 - i) h = l * 2 ^ (7 - i) + h * 2 ^ (8 - i)"
    using or_push_bit_add [OF lb] by simp
  also have "\<dots> = (2 * h + l) * 2 ^ (8 - (i + 1))"
    by (simp add: e algebra_simps)
  finally have step: "(word_of_int (h * 2 ^ (8 - i)) :: 32 word) OR push_bit (7 - i) (word_of_int l)
      = word_of_int ((2 * h + l) * 2 ^ (8 - (i + 1)))" .
  have "0 \<le> 2 * h + l" using l01 Cons.prems(3) by auto
  with Cons.IH [of "i + 1" "2 * h + l"] Cons.prems show ?case
    by (simp add: step del: of_int_add of_int_mult)
qed

lemma bits_value_bounds:
  "\<forall>l \<in> set ls. l = 0 \<or> l = 1 \<Longrightarrow> 0 \<le> (h::int) \<Longrightarrow>
   0 \<le> foldl (\<lambda>a b. 2 * a + b) h ls \<and> foldl (\<lambda>a b. 2 * a + b) h ls < (h + 1) * 2 ^ length ls"
proof (induction ls arbitrary: h)
  case Nil then show ?case by simp
next
  case (Cons l ls)
  have l01: "l = 0 \<or> l = 1" using Cons.prems(1) by simp
  have h': "0 \<le> 2 * h + l" using l01 Cons.prems(2) by auto
  have "foldl (\<lambda>a b. 2 * a + b) (2 * h + l) ls < (2 * h + l + 1) * 2 ^ length ls"
    using Cons.IH [of "2 * h + l"] Cons.prems h' by simp
  also have "\<dots> \<le> (2 * h + 2) * 2 ^ length ls"
    using l01 by (auto simp: mult_right_mono)
  finally show ?case using Cons.IH [of "2 * h + l"] Cons.prems h' by (simp add: algebra_simps)
qed

subsection \<open>Levels answered by the data line\<close>

lemma take_levels: "take m (levels env k n) = levels env k (min m n)"
  by (rule nth_equalityI) (simp_all add: levels_def)

lemma drop_levels: "drop m (levels env k n) = levels env (k + m) (n - m)"
proof (rule nth_equalityI)
  show "length (drop m (levels env k n)) = length (levels env (k + m) (n - m))"
    by (simp add: levels_def)
next
  fix i
  assume "i < length (drop m (levels env k n))"
  then have "m + i < n" "i < n - m" by (simp_all add: levels_def)
  then show "drop m (levels env k n) ! i = levels env (k + m) (n - m) ! i"
    by (simp add: levels_def add.assoc)
qed

lemma set_levels: "set (levels env k n) = (\<lambda>i. env (k + i)) ` {..<n}"
  by (auto simp: levels_def)

subsection \<open>A byte and the 24-bit value as integers\<close>

lemma shift_byte:
  assumes "\<forall>l \<in> set ls. l = 0 \<or> l = 1" "length ls = 8"
  shows "msb_acc 0 0 ls = word_of_int (bits_value ls)"
    and "0 \<le> bits_value ls" and "bits_value ls < 256"
proof -
  show "msb_acc 0 0 ls = word_of_int (bits_value ls)"
    using msb_acc_horner [of ls 0 0] assms by (simp add: bits_value_def)
  show "0 \<le> bits_value ls" "bits_value ls < 256"
    using bits_value_bounds [of ls 0] assms by (simp_all add: bits_value_def)
qed

lemma top_bit_iff:
  assumes "0 \<le> b" "b < 256"
  shows "((word_of_int b :: 32 word) AND 0x80 \<noteq> 0) = (128 \<le> b)"
proof -
  have "(0x80 :: 32 word) = 2 ^ 7" by simp
  then have "((word_of_int b :: 32 word) AND 0x80 \<noteq> 0) = bit (word_of_int b :: 32 word) 7"
    by (simp only: and_exp_eq_0_iff_not_bit) simp
  also have "\<dots> = bit b 7" by (simp add: bit_simps)
  also have "\<dots> = (128 \<le> b)"
  proof -
    have "b div 128 = (if 128 \<le> b then 1 else 0)" using assms by auto
    then show ?thesis by (simp add: bit_iff_odd)
  qed
  finally show ?thesis .
qed

lemma assemble:
  assumes b2: "0 \<le> b2" "b2 < 256" and b1: "0 \<le> b1" "b1 < 256" and b0: "0 \<le> b0" "b0 < 256"
  shows "sint (push_bit 24 (if (word_of_int b2 :: 32 word) AND 0x80 \<noteq> 0 then 0xff else 0x00)
           OR push_bit 16 (word_of_int b2) OR push_bit 8 (word_of_int b1) OR (word_of_int b0 :: 32 word))
         = twos_complement24 (65536 * b2 + 256 * b1 + b0)"
proof -
  define f :: int where "f = (if 128 \<le> b2 then 255 else 0)"
  define u where "u = 65536 * b2 + 256 * b1 + b0"
  have fw: "(if (word_of_int b2 :: 32 word) AND 0x80 \<noteq> 0 then 0xff else 0x00) = (word_of_int f :: 32 word)"
    by (simp add: top_bit_iff [OF b2] f_def)
  have x1: "b0 OR push_bit 8 b1 = b0 + b1 * 2 ^ 8"
    using or_push_bit_add [of b0 8 b1] b0 by simp
  have x2: "(b0 + b1 * 2 ^ 8) OR push_bit 16 b2 = (b0 + b1 * 2 ^ 8) + b2 * 2 ^ 16"
    using or_push_bit_add [of "b0 + b1 * 2 ^ 8" 16 b2] b0 b1 by simp
  have x3: "(b0 + b1 * 2 ^ 8 + b2 * 2 ^ 16) OR push_bit 24 f = (b0 + b1 * 2 ^ 8 + b2 * 2 ^ 16) + f * 2 ^ 24"
    using or_push_bit_add [of "b0 + b1 * 2 ^ 8 + b2 * 2 ^ 16" 24 f] b0 b1 b2 by simp
  have "push_bit 24 (word_of_int f) OR push_bit 16 (word_of_int b2) OR push_bit 8 (word_of_int b1) OR (word_of_int b0 :: 32 word)
       = word_of_int (((b0 OR push_bit 8 b1) OR push_bit 16 b2) OR push_bit 24 f)"
    by (simp only: of_int_or_eq push_bit_of_int ac_simps)
  also have "((b0 OR push_bit 8 b1) OR push_bit 16 b2) OR push_bit 24 f = u + f * 2 ^ 24"
    by (simp only: x1 x2 x3) (simp add: u_def)
  finally have w: "push_bit 24 (word_of_int f) OR push_bit 16 (word_of_int b2) OR push_bit 8 (word_of_int b1) OR (word_of_int b0 :: 32 word)
       = word_of_int (u + f * 2 ^ 24)" .
  have ub: "0 \<le> u" "u < 2 ^ 24" using b0 b1 b2 by (simp_all add: u_def)
  have top: "(128 \<le> b2) = (2 ^ 23 \<le> u)" using b0 b1 b2 by (auto simp: u_def)
  have "sint (word_of_int (u + f * 2 ^ 24) :: 32 word) = twos_complement24 u"
  proof (cases "128 \<le> b2")
    case True
    then have "u + f * 2 ^ 24 = (u - 2 ^ 24) + 2 ^ 32" by (simp add: f_def)
    moreover have "(word_of_int (x + 2 ^ 32) :: 32 word) = word_of_int x" for x :: int
      by (simp add: word_of_int_eq_iff take_bit_eq_mod)
    ultimately have "(word_of_int (u + f * 2 ^ 24) :: 32 word) = word_of_int (u - 2 ^ 24)"
      by (simp only:)
    moreover have "sint (word_of_int (u - 2 ^ 24) :: 32 word) = u - 2 ^ 24"
      using ub True top by (simp only: sint_sbintrunc') (simp add: signed_take_bit_int_eq_self)
    ultimately show ?thesis using True top by (simp add: twos_complement24_def)
  next
    case False
    then have "u + f * 2 ^ 24 = u" by (simp add: f_def)
    moreover have "sint (word_of_int u :: 32 word) = u"
      using ub by (simp only: sint_sbintrunc') (simp add: signed_take_bit_int_eq_self)
    ultimately show ?thesis using False top by (simp add: twos_complement24_def)
  qed
  then show ?thesis by (simp only: fw w u_def)
qed

subsection \<open>What the loops do to the state and the trace\<close>

lemma levels_0 [simp]: "levels env k 0 = []"
  by (simp add: levels_def)

lemma levels_Suc: "levels env k (Suc n) = env k # levels env (Suc k) n"
  by (simp add: levels_def upt_conv_Cons map_Suc_upt [symmetric] del: upt_Suc)

lemma levels_numeral:
  "levels env k (numeral n) = env k # levels env (Suc k) (pred_numeral n)"
  by (simp add: numeral_eq_Suc levels_Suc)

lemma levels_One: "levels env k (Suc 0) = [env k]"
  by (simp add: levels_Suc)

lemma length_levels [simp]: "length (levels env k n) = n"
  by (simp add: levels_def)

lemma levels_add: "levels env k (m + n) = levels env k m @ levels env (k + m) n"
  by (induction m arbitrary: k) (simp_all add: levels_Suc)

lemma shiftInSlow_loop_eq:
  "bitOrder \<noteq> 0 \<Longrightarrow>
   shiftInSlow_loop bitOrder i val s =
     (msb_acc i val (levels (line s) (nread s) (8 - i)),
      s\<lparr>nread := nread s + (8 - i),
        events := events s @ shift_events (PD_SCK s) (DOUT s) (levels (line s) (nread s) (8 - i))\<rparr>)"
proof (induction bitOrder i val s rule: shiftInSlow_loop.induct)
  case (1 bitOrder i val s)
  show ?case
  proof (cases "i < 8")
    case True
    then have e: "8 - i = Suc (7 - i)" by simp
    define s5 where "s5 = s\<lparr>nread := nread s + 1,
      events := events s @ bit_cycle (PD_SCK s) (DOUT s) (line s (nread s))\<rparr>"
    have step: "shiftInSlow_loop bitOrder i val s =
        shiftInSlow_loop bitOrder (i + 1) (val OR push_bit (7 - i) (word_of_int (line s (nread s)))) s5"
      using True "1.prems"
      by (subst shiftInSlow_loop.simps)
         (simp add: Let_def digitalWritePin_def waitMicros_def digitalReadPin_def s5_def bit_cycle_def)
    have ih: "shiftInSlow_loop bitOrder (i + 1) (val OR push_bit (7 - i) (word_of_int (line s (nread s)))) s5
       = (msb_acc (i + 1) (val OR push_bit (7 - i) (word_of_int (line s (nread s))))
            (levels (line s5) (nread s5) (8 - (i + 1))),
          s5\<lparr>nread := nread s5 + (8 - (i + 1)),
             events := events s5 @ shift_events (PD_SCK s5) (DOUT s5) (levels (line s5) (nread s5) (8 - (i + 1)))\<rparr>)"
      using "1.IH" [OF True refl refl refl _ refl refl refl "1.prems"] True "1.prems"
      by (simp add: Let_def digitalWritePin_def waitMicros_def digitalReadPin_def s5_def bit_cycle_def)
    show ?thesis
      unfolding step ih
      by (simp add: e levels_Suc s5_def shift_events_def)
  next
    case False
    then show ?thesis
      by (subst shiftInSlow_loop.simps) (simp add: shift_events_def)
  qed
qed

lemma gain_loop_eq:
  "gain_loop i s =
     s\<lparr>events := events s @ concat (replicate (GAIN s - i) (gain_pulse (PD_SCK s)))\<rparr>"
proof (induction i s rule: gain_loop.induct)
  case (1 i s)
  show ?case
  proof (cases "i < GAIN s")
    case True
    then have e: "GAIN s - i = Suc (GAIN s - (i + 1))" by simp
    define s4 where "s4 = s\<lparr>events := events s @ gain_pulse (PD_SCK s)\<rparr>"
    have step: "gain_loop i s = gain_loop (i + 1) s4"
      using True
      by (subst gain_loop.simps)
         (simp add: Let_def digitalWritePin_def waitMicros_def gain_pulse_def s4_def)
    have ih: "gain_loop (i + 1) s4 =
        s4\<lparr>events := events s4 @ concat (replicate (GAIN s4 - (i + 1)) (gain_pulse (PD_SCK s4)))\<rparr>"
      using "1.IH" [OF True refl refl refl refl]
      by (simp add: Let_def digitalWritePin_def waitMicros_def gain_pulse_def s4_def)
    show ?thesis
      unfolding step ih by (simp add: s4_def e)
  next
    case False
    then show ?thesis by (subst gain_loop.simps) simp
  qed
qed

lemma wait_ready_eq:
  "ready_after s j \<Longrightarrow>
   wait_ready d s =
     Some (s\<lparr>nread := nread s + j + 1,
             events := events s @ poll_events (DOUT s) d (levels (line s) (nread s) j)
                         @ [DigitalRead (DOUT s) 0]\<rparr>)"
proof (induction j arbitrary: s)
  case 0
  then show ?case
    by (subst wait_ready.simps)
       (simp add: ready_after_def is_ready_def digitalReadPin_def poll_events_def)
next
  case (Suc j)
  define s1 where "s1 = s\<lparr>nread := nread s + 1,
      events := events s @ [DigitalRead (DOUT s) (line s (nread s)), Pause d]\<rparr>"
  have nz: "line s (nread s) \<noteq> 0"
    using Suc.prems by (simp add: ready_after_def levels_Suc)
  have r: "ready_after s1 j"
    using Suc.prems by (simp add: ready_after_def levels_Suc s1_def)
  have step: "wait_ready d s = wait_ready d s1"
    using nz
    by (subst wait_ready.simps)
       (simp add: is_ready_def digitalReadPin_def pause_def s1_def)
  show ?case
    unfolding step Suc.IH [OF r]
    by (simp add: s1_def levels_Suc poll_events_def)
qed

lemma wait_ready_Some_ready:
  assumes "wait_ready d s = Some s'"
  shows "\<exists>j. ready_after s j"
proof (rule wait_ready.raw_induct [where P = "\<lambda>d s s'. \<exists>j. ready_after s j"], goal_cases)
  case (1 wr d s s')
  show ?case
  proof (cases "line s (nread s) = 0")
    case True
    then have "ready_after s 0" by (simp add: ready_after_def)
    then show ?thesis ..
  next
    case False
    define s1 where "s1 = pause d (snd (is_ready s))"
    have "wr d s1 = Some s'"
      using 1(2) False
      by (simp add: is_ready_def digitalReadPin_def s1_def)
    then obtain j where "ready_after s1 j" using 1(1) by blast
    then have "ready_after s (Suc j)"
      using False
      by (simp add: ready_after_def levels_Suc s1_def is_ready_def digitalReadPin_def pause_def)
    then show ?thesis ..
  qed
next
  case 2
  show "wait_ready d s = Some s'" by (rule assms)
qed

lemma read_eq:
  assumes "ready_after s j"
  shows "read s =
     Some (raw_value (levels (line s) (nread s + j + 1) 24),
           s\<lparr>nread := nread s + j + 25, events := events s @ read_events s j (GAIN s)\<rparr>)"
proof -
  have l24: "levels env k 24 = levels env k 8 @ levels env (k + 8) 8 @ levels env (k + 16) 8"
    for env k
    using levels_add [of env k 8 16] levels_add [of env "k + 8" 8 8] by (simp add: add.assoc)
  show ?thesis
    unfolding read_def wait_ready_eq [OF assms] shiftInSlow_def
    by (simp add: shiftInSlow_loop_eq gain_loop_eq Let_def raw_value_def read_events_def
        take_levels drop_levels l24 shift_events_def add.assoc)
qed

lemma read_Some_ready:
  assumes "read s = Some (v, s')"
  shows "\<exists>j. ready_after s j"
proof -
  obtain s1 where "wait_ready 0 s = Some s1"
    using assms by (auto simp: read_def split: option.splits)
  then show ?thesis by (rule wait_ready_Some_ready)
qed

lemma raw_value_decode:
  assumes "length ls = 24" "\<forall>l \<in> set ls. l = 0 \<or> l = 1"
  shows "raw_value ls = decode24 ls"
proof -
  have a: "\<forall>l \<in> set (take 8 ls). l = 0 \<or> l = 1" "length (take 8 ls) = 8"
    using assms by (auto dest: in_set_takeD)
  have b: "\<forall>l \<in> set (take 8 (drop 8 ls)). l = 0 \<or> l = 1" "length (take 8 (drop 8 ls)) = 8"
    using assms by (auto dest!: in_set_takeD in_set_dropD)
  have c: "\<forall>l \<in> set (drop 16 ls). l = 0 \<or> l = 1" "length (drop 16 ls) = 8"
    using assms by (auto dest: in_set_dropD)
  show ?thesis
    unfolding raw_value_def decode24_def Let_def
      shift_byte(1) [OF a] shift_byte(1) [OF b] shift_byte(1) [OF c]
    by (rule assemble [OF shift_byte(2,3) [OF a] shift_byte(2,3) [OF b] shift_byte(2,3) [OF c]])
qed

lemma decode24_range:
  assumes "length ls = 24" "\<forall>l \<in> set ls. l = 0 \<or> l = 1"
  shows "- (2 ^ 23) \<le> decode24 ls" "decode24 ls \<le> 2 ^ 23 - 1"
proof -
  have a: "\<forall>l \<in> set (take 8 ls). l = 0 \<or> l = 1" "length (take 8 ls) = 8"
    using assms by (auto dest: in_set_takeD)
  have b: "\<forall>l \<in> set (take 8 (drop 8 ls)). l = 0 \<or> l = 1" "length (take 8 (drop 8 ls)) = 8"
    using assms by (auto dest!: in_set_takeD in_set_dropD)
  have c: "\<forall>l \<in> set (drop 16 ls). l = 0 \<or> l = 1" "length (drop 16 ls) = 8"
    using assms by (auto dest: in_set_dropD)
  show "- (2 ^ 23) \<le> decode24 ls" "decode24 ls \<le> 2 ^ 23 - 1"
    using shift_byte(2,3) [OF a] shift_byte(2,3) [OF b] shift_byte(2,3) [OF c]
    by (simp_all add: decode24_def twos_complement24_def)
qed

subsection \<open>The level last written to the clock\<close>

lemma last_write_append:
  "last_write pin (xs @ ys) =
     (case last_write pin ys of Some lvl \<Rightarrow> Some lvl | None \<Rightarrow> last_write pin xs)"
  by (induction xs) (auto split: option.splits event.splits)

lemma last_write_gain_pulse: "last_write sck (gain_pulse sck) = Some 0"
  by (simp add: gain_pulse_def)

lemma last_write_bit_cycle: "last_write sck (bit_cycle sck dout lvl) = Some 0"
  by (simp add: bit_cycle_def)

lemma last_write_pulses:
  "last_write sck (concat (replicate k (gain_pulse sck))) = (if k = 0 then None else Some 0)"
  by (induction k) (simp_all add: last_write_append last_write_gain_pulse split: option.splits)

lemma last_write_shift:
  "ls \<noteq> [] \<Longrightarrow> last_write sck (shift_events sck dout ls) = Some 0"
  by (induction ls rule: rev_induct)
     (simp_all add: shift_events_def last_write_append last_write_bit_cycle)

lemma last_write_read_events:
  "last_write (PD_SCK s) (read_events s j k) = Some 0"
proof -
  have "levels (line s) (nread s + j + 1) 24 \<noteq> []"
    by (simp add: levels_def)
  then show ?thesis
    by (simp add: read_events_def last_write_append last_write_pulses last_write_shift)
qed

subsection \<open>Reads that return\<close>

lemma read_eq0:
  "line s (nread s) = 0 \<Longrightarrow>
   read s =
     Some (raw_value (levels (line s) (nread s + 1) 24),
           s\<lparr>nread := nread s + 25, events := events s @ read_events s 0 (GAIN s)\<rparr>)"
  using read_eq [of s 0] by (simp add: ready_after_def)

lemma read_Some_eq:
  assumes "read s = Some (v, s')"
  shows "\<exists>j. ready_after s j \<and> v = raw_value (levels (line s) (nread s + j + 1) 24)
           \<and> s' = s\<lparr>nread := nread s + j + 25, events := events s @ read_events s j (GAIN s)\<rparr>"
proof -
  obtain j where j: "ready_after s j" using read_Some_ready [OF assms] ..
  from read_eq [OF j] assms show ?thesis using j by auto
qed

lemma line_of_bit: "set ls \<subseteq> {0, 1} \<Longrightarrow> line_of ls k = 0 \<or> line_of ls k = 1"
  by (auto simp: line_of_def dest: nth_mem)

lemma no_irq_read_events:
  "NoInterrupts \<notin> set (read_events s j k)" "Interrupts \<notin> set (read_events s j k)"
  by (auto simp: read_events_def poll_events_def shift_events_def bit_cycle_def gain_pulse_def)

subsection \<open>Bounded polling\<close>

lemma wrr_loop_ready:
  "ready_after s j \<Longrightarrow> int j < retries - count \<Longrightarrow>
   wait_ready_retry_loop retries d count s =
     (True, s\<lparr>nread := nread s + j + 1,
              events := events s @ poll_events (DOUT s) d (levels (line s) (nread s) j)
                          @ [DigitalRead (DOUT s) 0]\<rparr>)"
proof (induction j arbitrary: s count)
  case 0
  then show ?case
    by (subst wait_ready_retry_loop.simps)
       (simp add: ready_after_def is_ready_def digitalReadPin_def poll_events_def)
next
  case (Suc j)
  define s1 where "s1 = s\<lparr>nread := nread s + 1,
      events := events s @ [DigitalRead (DOUT s) (line s (nread s)), Pause d]\<rparr>"
  have nz: "line s (nread s) \<noteq> 0"
    using Suc.prems by (simp add: ready_after_def levels_Suc)
  have r: "ready_after s1 j"
    using Suc.prems by (simp add: ready_after_def levels_Suc s1_def)
  have c: "count < retries" "int j < retries - (count + 1)"
    using Suc.prems by simp_all
  have step: "wait_ready_retry_loop retries d count s
      = wait_ready_retry_loop retries d (count + 1) s1"
    using nz c
    by (subst wait_ready_retry_loop.simps)
       (simp add: is_ready_def digitalReadPin_def pause_def s1_def)
  show ?case
    unfolding step Suc.IH [OF r c(2)]
    by (simp add: s1_def levels_Suc poll_events_def)
qed

lemma wrr_loop_exhaust:
  "\<forall>l \<in> set (levels (line s) (nread s) n). l \<noteq> 0 \<Longrightarrow> nat (retries - count) = n \<Longrightarrow>
   wait_ready_retry_loop retries d count s =
     (False, s\<lparr>nread := nread s + n,
               events := events s @ poll_events (DOUT s) d (levels (line s) (nread s) n)\<rparr>)"
proof (induction n arbitrary: s count)
  case 0
  then show ?case
    by (subst wait_ready_retry_loop.simps) (simp add: poll_events_def)
next
  case (Suc n)
  define s1 where "s1 = s\<lparr>nread := nread s + 1,
      events := events s @ [DigitalRead (DOUT s) (line s (nread s)), Pause d]\<rparr>"
  have nz: "line s (nread s) \<noteq> 0"
    using Suc.prems by (simp add: levels_Suc)
  have r: "\<forall>l \<in> set (levels (line s1) (nread s1) n). l \<noteq> 0"
    using Suc.prems by (simp add: levels_Suc s1_def)
  have c: "count < retries" "nat (retries - (count + 1)) = n"
    using Suc.prems by linarith+
  have step: "wait_ready_retry_loop retries d count s
      = wait_ready_retry_loop retries d (count + 1) s1"
    using nz c
    by (subst wait_ready_retry_loop.simps)
       (simp add: is_ready_def digitalReadPin_def pause_def s1_def)
  show ?case
    unfolding step Suc.IH [OF r c(2)]
    by (simp add: s1_def levels_Suc poll_events_def)
qed

lemma first_ready:
  assumes "\<exists>l \<in> set (levels (line s) (nread s) n). l = 0"
  shows "\<exists>j < n. ready_after s j"
proof -
  from assms obtain i where i: "i < n" "line s (nread s + i) = 0"
    by (auto simp: set_levels)
  define j where "j = (LEAST i. line s (nread s + i) = 0)"
  have j0: "line s (nread s + j) = 0"
    unfolding j_def using i(2) by (rule LeastI)
  have jle: "j \<le> i" unfolding j_def using i(2) by (rule Least_le)
  have "\<forall>k < j. line s (nread s + k) \<noteq> 0"
    unfolding j_def using not_less_Least by blast
  then have "ready_after s j"
    using j0 by (auto simp: ready_after_def set_levels)
  moreover have "j < n" using jle i(1) by simp
  ultimately show ?thesis by blast
qed

subsection \<open>Averaging\<close>

lemma read_average_loop_seq:
  "nat (n - i) = m \<Longrightarrow>
   read_average_loop n i acc s =
     (case read_seq m s of
        None \<Rightarrow> None
      | Some (vs, s') \<Rightarrow> Some (foldl (\<lambda>a v. num_add a (num_of_int v)) acc vs, s'))"
proof (induction m arbitrary: i acc s)
  case 0
  then show ?case by (subst read_average_loop.simps) simp
next
  case (Suc m)
  then have c: "i < n" "nat (n - (i + 1)) = m" by linarith+
  show ?case
  proof (cases "read s")
    case None
    then show ?thesis using c by (subst read_average_loop.simps) simp
  next
    case (Some p)
    obtain v s1 where p: "p = (v, s1)" by (cases p)
    have "read_average_loop n i acc s
        = read_average_loop n (i + 1) (num_add acc (num_of_int v)) (pause 0 s1)"
      using c Some p by (subst read_average_loop.simps) simp
    then show ?thesis
      using Suc.IH [OF c(2), of "num_add acc (num_of_int v)" "pause 0 s1"] Some p
      by (simp split: option.splits)
  qed
qed

lemma length_read_seq: "read_seq n s = Some (vs, s') \<Longrightarrow> length vs = n"
  by (induction n arbitrary: s vs) (auto split: option.splits)

lemma read_average_seq:
  "read_average n s =
     (case read_seq (nat n) s of
        None \<Rightarrow> None
      | Some (vs, s') \<Rightarrow>
          Some (num_div (foldl (\<lambda>a v. num_add a (num_of_int v)) (Fin 0) vs) (num_of_int n),
                s'))"
  using read_average_loop_seq [of n 0 "nat n" "Fin 0" s]
  by (simp add: read_average_def split: option.splits)

lemma read_value_bounds:
  assumes "read s = Some (v, s')"
  shows "\<bar>v\<bar> \<le> 2 ^ 31"
proof -
  obtain w :: "32 word" where "v = sint w"
    using read_Some_eq [OF assms] by (auto simp: raw_value_def Let_def)
  then show ?thesis
    using sint_ge [of w] sint_lt [of w] by simp
qed

lemma read_seq_bounds: "read_seq n s = Some (vs, s') \<Longrightarrow> \<forall>v \<in> set vs. \<bar>v\<bar> \<le> 2 ^ 31"
proof (induction n arbitrary: s vs)
  case 0
  then show ?case by simp
next
  case (Suc n)
  from Suc.prems obtain v s1 ws where
    r: "read s = Some (v, s1)" and q: "read_seq n (pause 0 s1) = Some (ws, s')"
    and vs: "vs = v # ws"
    by (auto split: option.splits)
  show ?case using read_value_bounds [OF r] Suc.IH [OF q] vs by simp
qed

lemma num_of_int_exact: "\<bar>k\<bar> < 2 ^ 53 \<Longrightarrow> num_of_int k = Fin (of_int k)"
  by (simp add: num_of_int_def round64_int)

lemma num_add_int:
  assumes "\<bar>b\<bar> < 2 ^ 53" "\<bar>a + b\<bar> < 2 ^ 53"
  shows "num_add (Fin (of_int a)) (num_of_int b) = Fin (of_int (a + b))"
proof -
  have "num_add (Fin (of_int a)) (Fin (of_int b)) = round64 (of_int (a + b))"
    by (simp add: num_add_def)
  then show ?thesis using assms by (simp only: num_of_int_exact round64_int)
qed

lemma sum_exact:
  "\<forall>v \<in> set vs. \<bar>v\<bar> \<le> 2 ^ 31 \<Longrightarrow> \<bar>a\<bar> + int (length vs) * 2 ^ 31 < 2 ^ 53 \<Longrightarrow>
   foldl (\<lambda>a v. num_add a (num_of_int v)) (Fin (of_int a)) vs = Fin (of_int (a + sum_list vs))"
proof (induction vs arbitrary: a)
  case Nil
  then show ?case by simp
next
  case (Cons v vs)
  have v: "\<bar>v\<bar> \<le> 2 ^ 31" using Cons.prems(1) by simp
  have b: "\<bar>a\<bar> + 2 ^ 31 + int (length vs) * 2 ^ 31 < 2 ^ 53"
    using Cons.prems(2) by (simp add: algebra_simps)
  have "\<bar>v\<bar> < 2 ^ 53" using v by simp
  moreover have "\<bar>a + v\<bar> < 2 ^ 53" using v b by simp
  ultimately have step: "num_add (Fin (of_int a)) (num_of_int v) = Fin (of_int (a + v))"
    by (rule num_add_int)
  have "\<bar>a + v\<bar> + int (length vs) * 2 ^ 31 < 2 ^ 53" using v b by simp
  then show ?case
    using Cons.IH [of "a + v"] Cons.prems(1) by (simp add: step add.assoc)
qed

lemma num_div_int:
  assumes "0 < n" "n < 2 ^ 53"
  shows "num_div (Fin (of_int k)) (num_of_int n) = round64 (of_int k / of_int n)"
proof -
  have n: "num_of_int n = Fin (of_int n)" using assms by (simp add: num_of_int_exact)
  show ?thesis
    unfolding n using assms(1)
    by (simp add: num_div_def signed_zero_def round64_def)
qed

lemma read_average_eq:
  assumes "n < 2 ^ 22"
  shows "read_average n s =
     (case read_seq (nat n) s of
        None \<Rightarrow> None
      | Some (vs, s') \<Rightarrow>
          Some (num_div (Fin (of_int (sum_list vs))) (num_of_int n), s'))"
proof (cases "read_seq (nat n) s")
  case None
  then show ?thesis by (simp add: read_average_seq)
next
  case (Some p)
  obtain vs s' where p: "p = (vs, s')" by (cases p)
  have l: "length vs = nat n" using Some p length_read_seq by blast
  have "int (nat n) * 2 ^ 31 < 2 ^ 53" using assms by simp
  then have "\<bar>0\<bar> + int (length vs) * 2 ^ 31 < 2 ^ 53" by (simp add: l)
  from sum_exact [OF _ this] read_seq_bounds [of "nat n" s vs s'] Some p
  have "foldl (\<lambda>a v. num_add a (num_of_int v)) (Fin 0) vs = Fin (of_int (sum_list vs))"
    by simp
  then show ?thesis using Some p by (simp add: read_average_seq)
qed

subsection \<open>What the calls leave unchanged\<close>

lemma vars_kept_refl [simp]: "vars_kept s s"
  by (simp add: vars_kept_def)

lemma vars_kept_trans: "vars_kept s s1 \<Longrightarrow> vars_kept s1 s2 \<Longrightarrow> vars_kept s s2"
  by (simp add: vars_kept_def)

lemma vars_kept_pause [simp]: "vars_kept s (pause ms s)"
  by (simp add: vars_kept_def pause_def)

lemma vars_kept_read: "read s = Some (v, s') \<Longrightarrow> vars_kept s s'"
  using read_Some_eq [of s v s'] by (auto simp: vars_kept_def)

lemma vars_kept_read_seq: "read_seq n s = Some (vs, s') \<Longrightarrow> vars_kept s s'"
proof (induction n arbitrary: s vs)
  case 0
  then show ?case by simp
next
  case (Suc n)
  from Suc.prems obtain v s1 ws where
    r: "read s = Some (v, s1)" and q: "read_seq n (pause 0 s1) = Some (ws, s')"
    by (auto split: option.splits)
  have "vars_kept s (pause 0 s1)"
    using vars_kept_read [OF r] vars_kept_pause [of s1 0] by (rule vars_kept_trans)
  then show ?case using Suc.IH [OF q] by (rule vars_kept_trans)
qed

lemma vars_kept_read_average: "read_average n s = Some (a, s') \<Longrightarrow> vars_kept s s'"
  by (auto simp: read_average_seq split: option.splits dest: vars_kept_read_seq)

lemma not_finite_over_zero: "is_zero x \<Longrightarrow> \<not> is_finite (num_div w (num_div x sc))"
  by (cases x; cases sc; cases w) (auto simp: num_div_def signed_zero_def signed_inf_def)

subsection \<open>Runs on an idle line\<close>

lemma raw_value_zeros: "raw_value (levels (line_of []) k 24) = 0"
  by (simp add: line_of_def levels_numeral levels_One raw_value_def)

lemma read_seq_idle:
  "line s = line_of [] \<Longrightarrow> \<exists>s'. read_seq n s = Some (replicate n 0, s')"
proof (induction n arbitrary: s)
  case 0
  then show ?case by simp
next
  case (Suc n)
  have r: "ready_after s 0"
    using Suc.prems by (simp add: ready_after_def line_of_def)
  define s1 where
    "s1 = s\<lparr>nread := nread s + 0 + 25, events := events s @ read_events s 0 (GAIN s)\<rparr>"
  have e: "read s = Some (0, s1)"
    using read_eq [OF r] Suc.prems by (simp add: raw_value_zeros s1_def)
  have "line (pause 0 s1) = line_of []"
    using Suc.prems by (simp add: s1_def pause_def)
  from Suc.IH [OF this] obtain s' where "read_seq n (pause 0 s1) = Some (replicate n 0, s')" ..
  then show ?case using e by simp
qed

lemma read_average_idle:
  assumes "line s = line_of []" "1 \<le> n" "n < 2 ^ 22"
  shows "\<exists>s'. read_average n s = Some (Fin 0, s')"
proof -
  obtain s' where "read_seq (nat n) s = Some (replicate (nat n) 0, s')"
    using read_seq_idle [OF assms(1)] by blast
  moreover have "num_div (Fin (of_int 0)) (num_of_int n) = round64 (of_int 0 / of_int n)"
    using assms(2,3) by (intro num_div_int) simp_all
  ultimately show ?thesis
    using assms(3) by (simp add: read_average_eq sum_list_replicate round64_def)
qed

lemma raw_value_quiet:
  assumes "\<forall>i < 24. env (k + i) = 0"
  shows "raw_value (levels env k 24) = 0"
proof -
  have "levels env k 24 = levels (line_of []) k 24"
    using assms by (simp add: levels_def line_of_def)
  then show ?thesis by (simp only: raw_value_zeros)
qed

lemma read_seq_quiet:
  "\<forall>k \<ge> nread s. line s k = 0 \<Longrightarrow> \<exists>s'. read_seq n s = Some (replicate n 0, s')"
proof (induction n arbitrary: s)
  case 0
  then show ?case by simp
next
  case (Suc n)
  have r: "ready_after s 0"
    using Suc.prems by (simp add: ready_after_def)
  define s1 where
    "s1 = s\<lparr>nread := nread s + 0 + 25, events := events s @ read_events s 0 (GAIN s)\<rparr>"
  have "raw_value (levels (line s) (nread s + 0 + 1) 24) = 0"
    using Suc.prems by (intro raw_value_quiet) simp
  then have e: "read s = Some (0, s1)"
    using read_eq [OF r] by (simp add: s1_def)
  have "\<forall>k \<ge> nread (pause 0 s1). line (pause 0 s1) k = 0"
    using Suc.prems by (simp add: s1_def pause_def)
  from Suc.IH [OF this] obtain s' where "read_seq n (pause 0 s1) = Some (replicate n 0, s')" ..
  then show ?case using e by simp
qed

text \<open>A line that reads ready, then the 24 bits of the sample 1, then 0 for ever.\<close>

lemma read_seq_one:
  assumes "line s = line_of [0, 0, 0, 0, 0, 0, 0, 0, 0, 0, 0, 0, 0,
                             0, 0, 0, 0, 0, 0, 0, 0, 0, 0, 0, 1]"
    and "nread s = 0"
  shows "\<exists>s'. read_seq (Suc n) s = Some (1 # replicate n 0, s')"
proof -
  have r: "ready_after s 0"
    using assms by (simp add: ready_after_def line_of_def)
  define s1 where
    "s1 = s\<lparr>nread := nread s + 0 + 25, events := events s @ read_events s 0 (GAIN s)\<rparr>"
  have "raw_value (levels (line s) (nread s + 0 + 1) 24) = 1"
    using assms by (simp add: line_of_def levels_numeral levels_One raw_value_def)
  then have e: "read s = Some (1, s1)"
    using read_eq [OF r] by (simp add: s1_def)
  have "\<forall>k \<ge> nread (pause 0 s1). line (pause 0 s1) k = 0"
    using assms by (simp add: s1_def pause_def line_of_def)
  from read_seq_quiet [OF this] obtain s' where
    "read_seq n (pause 0 s1) = Some (replicate n 0, s')" ..
  then show ?thesis using e by simp
qed

subsection \<open>The pulse count across calls\<close>

lemma vars_kept_digitalWritePin [simp]: "vars_kept s (digitalWritePin pin lvl s)"
  by (simp add: vars_kept_def digitalWritePin_def)

lemma vars_kept_waitMicros [simp]: "vars_kept s (waitMicros us s)"
  by (simp add: vars_kept_def waitMicros_def)

lemma vars_kept_digitalReadPin [simp]: "vars_kept s (snd (digitalReadPin pin s))"
  by (simp add: vars_kept_def digitalReadPin_def)

lemma vars_kept_is_ready [simp]: "vars_kept s (snd (is_ready s))"
  by (simp add: vars_kept_def is_ready_def digitalReadPin_def)

lemma vars_kept_runningTime [simp]: "vars_kept s (snd (runningTime s))"
  by (simp add: vars_kept_def runningTime_def)

lemma vars_kept_shiftInSlow_loop: "vars_kept s (snd (shiftInSlow_loop bitOrder i val s))"
proof (induction bitOrder i val s rule: shiftInSlow_loop.induct)
  case (1 bitOrder i val s)
  show ?case
  proof (cases "i < 8")
    case True
    define s5 where "s5 = waitMicros 1 (digitalWritePin (PD_SCK s) 0
        (snd (digitalReadPin (DOUT s) (waitMicros 1 (digitalWritePin (PD_SCK s) 1 s)))))"
    have k: "vars_kept s s5"
      by (simp add: s5_def vars_kept_def digitalWritePin_def waitMicros_def digitalReadPin_def)
    define val1 where
      "val1 = (if bitOrder = 0 then val OR push_bit i (word_of_int (line s (nread s)))
               else val OR push_bit (7 - i) (word_of_int (line s (nread s))))"
    have step:
      "shiftInSlow_loop bitOrder i val s = shiftInSlow_loop bitOrder (i + 1) val1 s5"
      using True
      by (subst shiftInSlow_loop.simps)
         (simp add: Let_def s5_def val1_def digitalWritePin_def waitMicros_def
            digitalReadPin_def)
    have "vars_kept s5 (snd (shiftInSlow_loop bitOrder (i + 1) val1 s5))"
      using "1.IH" [OF True refl refl _ refl refl refl refl]
      by (simp add: s5_def val1_def digitalWritePin_def waitMicros_def digitalReadPin_def)
    with k show ?thesis unfolding step by (rule vars_kept_trans)
  next
    case False
    then show ?thesis by (subst shiftInSlow_loop.simps) simp
  qed
qed

lemma vars_kept_wait_ready: "wait_ready d s = Some s' \<Longrightarrow> vars_kept s s'"
  using wait_ready_Some_ready [of d s s'] wait_ready_eq [of s _ d]
  by (auto simp: vars_kept_def)

lemma vars_kept_shiftInSlow: "vars_kept s (snd (shiftInSlow bitOrder s))"
  by (simp add: shiftInSlow_def vars_kept_shiftInSlow_loop)

lemma vars_kept_wait_ready_retry_loop:
  "vars_kept s (snd (wait_ready_retry_loop retries d count s))"
proof (induction retries d count s rule: wait_ready_retry_loop.induct)
  case (1 retries d count s)
  show ?case
  proof (cases "count < retries \<and> line s (nread s) \<noteq> 0")
    case True
    define s1 where "s1 = pause d (snd (is_ready s))"
    have k: "vars_kept s s1"
      by (simp add: s1_def vars_kept_def pause_def is_ready_def digitalReadPin_def)
    have step: "wait_ready_retry_loop retries d count s
        = wait_ready_retry_loop retries d (count + 1) s1"
      using True
      by (subst wait_ready_retry_loop.simps)
         (simp add: s1_def is_ready_def digitalReadPin_def)
    have "vars_kept s1 (snd (wait_ready_retry_loop retries d (count + 1) s1))"
      using "1.IH" [of "fst (is_ready s)" "snd (is_ready s)"] True
      by (simp add: s1_def is_ready_def digitalReadPin_def)
    with k show ?thesis unfolding step by (rule vars_kept_trans)
  next
    case False
    then show ?thesis
      by (subst wait_ready_retry_loop.simps)
         (auto simp: is_ready_def digitalReadPin_def vars_kept_def)
  qed
qed

lemma vars_kept_wait_ready_timeout_loop:
  assumes "wait_ready_timeout_loop timeout d started s = Some (r, s')"
  shows "vars_kept s s'"
proof -
  have "vars_kept s (snd (r, s'))"
  proof (rule wait_ready_timeout_loop.raw_induct
    [where P = "\<lambda>timeout d started s p. vars_kept s (snd p)"], goal_cases)
  case (1 wl timeout d started s p)
  obtain r s' where p: "p = (r, s')" by (cases p)
  show ?case
  proof (cases "clock s (ntime s) - started < timeout \<and> line s (nread s) \<noteq> 0")
    case True
    define s3 where "s3 = pause d (snd (is_ready (snd (runningTime s))))"
    have k: "vars_kept s s3"
      by (simp add: s3_def vars_kept_def pause_def is_ready_def digitalReadPin_def
          runningTime_def)
    have "wl timeout d started s3 = Some (r, s')"
      using 1(2) True p
      by (simp add: s3_def runningTime_def is_ready_def digitalReadPin_def)
    then have "vars_kept s3 (snd (r, s'))" by (rule 1(1))
    with k show ?thesis unfolding p by (rule vars_kept_trans)
  next
    case False
    then show ?thesis
      using 1(2) p
      by (auto simp: runningTime_def is_ready_def digitalReadPin_def vars_kept_def
          split: if_splits)
  qed
  next
    case 2
    show "wait_ready_timeout_loop timeout d started s = Some (r, s')" by (rule assms)
  qed
  then show ?thesis by simp
qed

lemma set_gain_Some:
  assumes "set_gain gain s = Some s'"
    and "k = (if gain = 128 then 1 else if gain = 64 then 3 else if gain = 32 then 2 else GAIN s)"
  shows "\<exists>j. s' = s\<lparr>GAIN := k, nread := nread s + j + 25,
                     events := events s @ [DigitalWrite (PD_SCK s) 0] @ read_events s j k\<rparr>"
proof -
  define s2 where "s2 = s\<lparr>GAIN := k, events := events s @ [DigitalWrite (PD_SCK s) 0]\<rparr>"
  have "set_gain gain s = (case read s2 of None \<Rightarrow> None | Some (v, s3) \<Rightarrow> Some s3)"
    unfolding s2_def assms(2)
    by (simp add: set_gain_def Let_def digitalWritePin_def)
  with assms(1) obtain v where r: "read s2 = Some (v, s')"
    by (auto split: option.splits)
  from read_Some_eq [OF r] obtain j where
    s': "s' = s2\<lparr>nread := nread s2 + j + 25, events := events s2 @ read_events s2 j (GAIN s2)\<rparr>"
    by blast
  have re: "read_events s2 j (GAIN s2) = read_events s j k"
    by (simp add: s2_def read_events_def)
  have "s' = s\<lparr>GAIN := k, nread := nread s + j + 25,
      events := events s @ [DigitalWrite (PD_SCK s) 0] @ read_events s j k\<rparr>"
    unfolding s' re by (simp add: s2_def)
  then show ?thesis ..
qed

lemma set_gain_GAIN_eq:
  assumes "set_gain gain s = Some s'"
    and "k = (if gain = 128 then 1 else if gain = 64 then 3 else if gain = 32 then 2 else GAIN s)"
  shows "GAIN s' = k"
proof -
  from set_gain_Some [OF assms] obtain j where
    "s' = s\<lparr>GAIN := k, nread := nread s + j + 25,
             events := events s @ [DigitalWrite (PD_SCK s) 0] @ read_events s j k\<rparr>" ..
  then show ?thesis by simp
qed

lemma set_gain_GAIN:
  "set_gain gain s = Some s' \<Longrightarrow>
   GAIN s' = (if gain = 128 then 1 else if gain = 64 then 3
              else if gain = 32 then 2 else GAIN s)"
  by (rule set_gain_GAIN_eq [OF _ refl])

lemma begin_hx_GAIN:
  assumes "begin_hx pinDOUT pinPD_SCK s = Some s'"
  shows "GAIN s' = 1"
  using set_gain_GAIN [of 128 "s\<lparr>PD_SCK := pinPD_SCK, DOUT := pinDOUT\<rparr>" s'] assms
  by (simp add: begin_hx_def)

lemma exec_GAIN:
  assumes "\<not> selects_gain c" "exec c s = Some s'"
  shows "GAIN s' = GAIN s"
proof (cases c)
  case (ShiftInSlow bitOrder)
  then show ?thesis
    using assms vars_kept_shiftInSlow [of s bitOrder] by (auto simp: vars_kept_def)
next
  case IsReady
  then show ?thesis using assms vars_kept_is_ready [of s] by (auto simp: vars_kept_def)
next
  case Read
  then show ?thesis using assms by (auto simp: vars_kept_def dest: vars_kept_read)
next
  case (WaitReady d)
  then show ?thesis using assms by (auto simp: vars_kept_def dest: vars_kept_wait_ready)
next
  case (WaitReadyRetry k d)
  then show ?thesis
    using assms vars_kept_wait_ready_retry_loop [of s k d 0]
    by (auto simp: vars_kept_def wait_ready_retry_def)
next
  case (WaitReadyTimeout t d)
  then obtain r where "wait_ready_timeout t d s = Some (r, s')"
    using assms by auto
  then have "wait_ready_timeout_loop t d (clock s (ntime s)) (snd (runningTime s)) = Some (r, s')"
    by (simp add: wait_ready_timeout_def runningTime_def)
  from vars_kept_wait_ready_timeout_loop [OF this] show ?thesis
    by (simp add: vars_kept_def runningTime_def)
next
  case (ReadAverage n)
  then show ?thesis using assms by (auto simp: vars_kept_def dest: vars_kept_read_average)
next
  case (GetValue n)
  then show ?thesis
    using assms
    by (auto simp: vars_kept_def get_value_def split: option.splits dest: vars_kept_read_average)
next
  case (Calibrate w)
  then show ?thesis
    using assms
    by (auto simp: vars_kept_def calibrate_def get_value_def split: option.splits
        dest: vars_kept_read_average)
next
  case (GetUnits n)
  then show ?thesis
    using assms
    by (auto simp: vars_kept_def get_units_def get_value_def Let_def split: option.splits
        dest: vars_kept_read_average)
next
  case (Tare n)
  then show ?thesis
    using assms
    by (auto simp: vars_kept_def tare_def set_offset_def split: option.splits
        dest: vars_kept_read_average)
qed (use assms in \<open>auto simp: set_scale_def set_offset_def power_up_def power_down_def
      digitalWritePin_def Let_def\<close>)

lemma run_GAIN:
  "\<forall>c \<in> set cs. \<not> selects_gain c \<Longrightarrow> run cs s = Some s' \<Longrightarrow> GAIN s' = GAIN s"
proof (induction cs arbitrary: s)
  case Nil
  then show ?case by simp
next
  case (Cons c cs)
  from Cons.prems obtain s1 where e: "exec c s = Some s1" and r: "run cs s1 = Some s'"
    by (auto split: option.splits)
  have "GAIN s1 = GAIN s" using Cons.prems(1) e by (auto dest: exec_GAIN)
  moreover have "GAIN s' = GAIN s1" using Cons.IH [OF _ r] Cons.prems(1) by simp
  ultimately show ?case by simp
qed

lemma exec_GAIN_cases:
  assumes "exec c s = Some s'"
  shows "GAIN s' = GAIN s \<or> GAIN s' = 1 \<or> GAIN s' = 3 \<or> GAIN s' = 2"
proof (cases "selects_gain c")
  case True
  then show ?thesis
    using assms by (cases c) (auto dest: begin_hx_GAIN set_gain_GAIN split: if_splits)
next
  case False
  then show ?thesis using assms exec_GAIN by blast
qed

lemma run_snoc: "run (cs @ [c]) s = (case run cs s of None \<Rightarrow> None | Some s1 \<Rightarrow> exec c s1)"
  by (induction cs arbitrary: s) (auto split: option.splits)

lemma run_GAIN_range: "run cs (initial env clk) = Some s \<Longrightarrow> GAIN s \<in> {0, 1, 3, 2}"
proof (induction cs arbitrary: s rule: rev_induct)
  case Nil
  then show ?case by (auto simp: initial_def)
next
  case (snoc c cs)
  from snoc.prems obtain s1 where r: "run cs (initial env clk) = Some s1"
    and e: "exec c s1 = Some s"
    by (auto simp: run_snoc split: option.splits)
  from snoc.IH [OF r] exec_GAIN_cases [OF e] show ?case by auto
qed

lemma read_idle:
  "line s = line_of [] \<Longrightarrow>
   read s = Some (0, s\<lparr>nread := nread s + 25, events := events s @ read_events s 0 (GAIN s)\<rparr>)"
  using read_eq0 [of s] by (simp add: raw_value_zeros line_of_def)

lemma set_gain_idle:
  assumes "line s = line_of []"
  shows "\<exists>s'. set_gain gain s = Some s' \<and> line s' = line_of []"
proof -
  define k where "k = (if gain = 128 then 1 else if gain = 64 then 3
                       else if gain = 32 then 2 else GAIN s)"
  define s2 where "s2 = s\<lparr>GAIN := k, events := events s @ [DigitalWrite (PD_SCK s) 0]\<rparr>"
  have u: "set_gain gain s = (case read s2 of None \<Rightarrow> None | Some (v, s3) \<Rightarrow> Some s3)"
    unfolding s2_def k_def by (simp add: set_gain_def Let_def digitalWritePin_def)
  have "line s2 = line_of []" using assms by (simp add: s2_def)
  from read_idle [OF this] show ?thesis
    unfolding u using assms by (simp add: s2_def)
qed

subsection \<open>A line that is never ready\<close>

lemma read_never_ready:
  assumes "line s = stuck_high"
  shows "read s = None"
proof (rule ccontr)
  assume "read s \<noteq> None"
  then obtain v s' where "read s = Some (v, s')" by auto
  then obtain j where "ready_after s j" using read_Some_ready by blast
  then show False using assms by (simp add: ready_after_def stuck_high_def)
qed

lemma read_average_never_ready:
  assumes "line s = stuck_high" "1 \<le> n"
  shows "read_average n s = None"
proof -
  obtain m where "nat n = Suc m" using assms(2) by (cases "nat n") auto
  then have "read_seq (nat n) s = None"
    using read_never_ready [OF assms(1)] by simp
  then show ?thesis by (simp add: read_average_seq)
qed

section \<open>The properties\<close>

text \<open>
  C1. When \<open>read\<close> finds the line ready and the 24 levels it then samples are each 0
  or 1, it returns the number whose three bytes, most significant first, are those
  levels taken eight at a time, most significant bit first, read as a 24-bit
  two's-complement value. Read from the initial state, the bytes 0x7F 0xFF 0xFF give
  8388607, the bytes 0x80 0x00 0x00 give -8388608 and the bytes 0x00 0x00 0x01 give 1
  (the first level of each list is the ready poll).
\<close>

theorem read_decodes_sample:
  "(ready_after s j \<and> (\<forall>b \<in> set (levels (line s) (nread s + j + 1) 24). b = 0 \<or> b = 1)
      \<longrightarrow> map_option fst (read s) = Some (decode24 (levels (line s) (nread s + j + 1) 24)))
   \<and> map_option fst (read (initial (line_of [0, 0, 1, 1, 1, 1, 1, 1,
        1, 1, 1, 1, 1, 1, 1, 1,
        1, 1, 1, 1, 1, 1, 1, 1,
        1]) clk)) = Some 8388607
   \<and> map_option fst (read (initial (line_of [0, 1, 0, 0, 0, 0, 0, 0,
        0, 0, 0, 0, 0, 0, 0, 0,
        0, 0, 0, 0, 0, 0, 0, 0,
        0]) clk)) = Some (- 8388608)
   \<and> map_option fst (read (initial (line_of [0, 0, 0, 0, 0, 0, 0, 0,
        0, 0, 0, 0, 0, 0, 0, 0,
        0, 0, 0, 0, 0, 0, 0, 0,
        1]) clk)) = Some 1"
proof (intro conjI impI)
  assume a: "ready_after s j \<and> (\<forall>b \<in> set (levels (line s) (nread s + j + 1) 24). b = 0 \<or> b = 1)"
  then have "raw_value (levels (line s) (nread s + j + 1) 24)
      = decode24 (levels (line s) (nread s + j + 1) 24)"
    by (intro raw_value_decode) simp_all
  then show "map_option fst (read s) = Some (decode24 (levels (line s) (nread s + j + 1) 24))"
    using a read_eq [of s j] by simp
next
  have r: "ready_after (initial (line_of [0, 0, 1, 1, 1, 1, 1, 1,
        1, 1, 1, 1, 1, 1, 1, 1,
        1, 1, 1, 1, 1, 1, 1, 1,
        1]) clk) 0"
    by (simp add: ready_after_def initial_def line_of_def)
  show "map_option fst (read (initial (line_of [0, 0, 1, 1, 1, 1, 1, 1,
        1, 1, 1, 1, 1, 1, 1, 1,
        1, 1, 1, 1, 1, 1, 1, 1,
        1]) clk)) = Some 8388607"
    unfolding read_eq [OF r]
    by (simp add: initial_def line_of_def levels_numeral levels_One raw_value_def)
next
  have r: "ready_after (initial (line_of [0, 1, 0, 0, 0, 0, 0, 0,
        0, 0, 0, 0, 0, 0, 0, 0,
        0, 0, 0, 0, 0, 0, 0, 0,
        0]) clk) 0"
    by (simp add: ready_after_def initial_def line_of_def)
  show "map_option fst (read (initial (line_of [0, 1, 0, 0, 0, 0, 0, 0,
        0, 0, 0, 0, 0, 0, 0, 0,
        0, 0, 0, 0, 0, 0, 0, 0,
        0]) clk)) = Some (- 8388608)"
    unfolding read_eq [OF r]
    by (simp add: initial_def line_of_def levels_numeral levels_One raw_value_def)
next
  have r: "ready_after (initial (line_of [0, 0, 0, 0, 0, 0, 0, 0,
        0, 0, 0, 0, 0, 0, 0, 0,
        0, 0, 0, 0, 0, 0, 0, 0,
        1]) clk) 0"
    by (simp add: ready_after_def initial_def line_of_def)
  show "map_option fst (read (initial (line_of [0, 0, 0, 0, 0, 0, 0, 0,
        0, 0, 0, 0, 0, 0, 0, 0,
        0, 0, 0, 0, 0, 0, 0, 0,
        1]) clk)) = Some 1"
    unfolding read_eq [OF r]
    by (simp add: initial_def line_of_def levels_numeral levels_One raw_value_def)
qed

theorem read_decodes_sample_witness:
  "ready_after (initial (line_of [1, 1, 0, 1, 1, 1, 1, 1,
        1, 1, 1, 1, 1, 1, 1, 1,
        1, 1, 1, 1, 1, 1, 1, 1,
        1, 1, 0]) ticking) 2
   \<and> set (levels (line_of [1, 1, 0, 1, 1, 1, 1, 1,
        1, 1, 1, 1, 1, 1, 1, 1,
        1, 1, 1, 1, 1, 1, 1, 1,
        1, 1, 0]) 3 24) \<subseteq> {0, 1}
   \<and> map_option fst (read (initial (line_of [1, 1, 0, 1, 1, 1, 1, 1,
        1, 1, 1, 1, 1, 1, 1, 1,
        1, 1, 1, 1, 1, 1, 1, 1,
        1, 1, 0]) ticking)) = Some (- 2)"
proof -
  let ?s = "initial (line_of [1, 1, 0, 1, 1, 1, 1, 1,
        1, 1, 1, 1, 1, 1, 1, 1,
        1, 1, 1, 1, 1, 1, 1, 1,
        1, 1, 0]) ticking"
  have a: "ready_after ?s 2"
    by (simp add: ready_after_def initial_def line_of_def levels_numeral levels_One)
  have b: "set (levels (line_of [1, 1, 0, 1, 1, 1, 1, 1,
        1, 1, 1, 1, 1, 1, 1, 1,
        1, 1, 1, 1, 1, 1, 1, 1,
        1, 1, 0]) 3 24) \<subseteq> {0, 1}"
    by (simp add: line_of_def levels_numeral levels_One)
  have b': "\<forall>b \<in> set (levels (line ?s) (nread ?s + 2 + 1) 24). b = 0 \<or> b = 1"
    by (simp add: initial_def line_of_def levels_numeral levels_One)
  have d: "decode24 (levels (line ?s) (nread ?s + 2 + 1) 24) = - 2"
    by (simp add: initial_def line_of_def levels_numeral levels_One decode24_def
        bits_value_def twos_complement24_def)
  have "map_option fst (read ?s) = Some (- 2)"
    using read_decodes_sample [THEN conjunct1, rule_format, OF conjI [OF a b']]
    by (simp only: d)
  with a b show ?thesis by blast
qed

text \<open>
  C7. On a data line whose reads from now on each answer 0 or 1, a \<open>read\<close> that
  returns returns an integer from -2^23 to 2^23 - 1; and it does return once the line
  reads ready.
\<close>

theorem read_in_range:
  assumes "\<forall>k \<ge> nread s. line s k = 0 \<or> line s k = 1"
  shows "(read s = Some (v, s') \<longrightarrow> - (2 ^ 23) \<le> v \<and> v \<le> 2 ^ 23 - 1)
         \<and> (ready_after s j \<longrightarrow> read s \<noteq> None)"
proof (intro conjI impI)
  assume r: "read s = Some (v, s')"
  obtain i where v: "v = raw_value (levels (line s) (nread s + i + 1) 24)"
    using read_Some_eq [OF r] by blast
  have bits: "\<forall>l \<in> set (levels (line s) (nread s + i + 1) 24). l = 0 \<or> l = 1"
    using assms by (auto simp: set_levels)
  have d: "v = decode24 (levels (line s) (nread s + i + 1) 24)"
    unfolding v by (rule raw_value_decode) (simp_all add: bits)
  show "- (2 ^ 23) \<le> v" "v \<le> 2 ^ 23 - 1"
    using decode24_range [of "levels (line s) (nread s + i + 1) 24"] bits d by simp_all
next
  assume "ready_after s j"
  then show "read s \<noteq> None" by (simp add: read_eq)
qed

theorem read_in_range_witness:
  "ready_after (initial (line_of [1, 0, 1, 0, 1]) ticking) 1
   \<and> read (initial (line_of [1, 0, 1, 0, 1]) ticking) \<noteq> None
   \<and> - (2 ^ 23) \<le> fst (the (read (initial (line_of [1, 0, 1, 0, 1]) ticking)))
   \<and> fst (the (read (initial (line_of [1, 0, 1, 0, 1]) ticking))) \<le> 2 ^ 23 - 1"
proof -
  let ?s = "initial (line_of [1, 0, 1, 0, 1]) ticking"
  have r: "ready_after ?s 1"
    by (simp add: ready_after_def initial_def line_of_def levels_One)
  have b: "\<forall>k \<ge> nread ?s. line ?s k = 0 \<or> line ?s k = 1"
    using line_of_bit [of "[1, 0, 1, 0, 1]"] by (simp add: initial_def)
  have n: "read ?s \<noteq> None"
    using read_in_range [OF b, THEN conjunct2, rule_format, OF r] .
  then obtain v s' where e: "read ?s = Some (v, s')" by auto
  from read_in_range [OF b, THEN conjunct1, rule_format, OF e] e r show ?thesis by simp
qed

text \<open>
  C10. Every \<open>read\<close> that returns leaves the last level written to the clock pin at
  0, whatever the number of trailing pulses (none included): a bit cycle and a trailing
  pulse each end with the clock written low.
\<close>

theorem read_leaves_clock_low:
  "(read s = Some (v, s') \<longrightarrow> last_write (PD_SCK s') (events s') = Some 0)
   \<and> last_write sck (bit_cycle sck dout lvl) = Some 0
   \<and> last_write sck (gain_pulse sck) = Some 0"
proof (intro conjI impI)
  assume "read s = Some (v, s')"
  then obtain j where
    "s' = s\<lparr>nread := nread s + j + 25, events := events s @ read_events s j (GAIN s)\<rparr>"
    using read_Some_eq by blast
  then show "last_write (PD_SCK s') (events s') = Some 0"
    by (simp add: last_write_append last_write_read_events)
qed (simp_all add: last_write_bit_cycle last_write_gain_pulse)

theorem read_leaves_clock_low_witness:
  "GAIN (initial (line_of [1, 0, 1]) ticking) = 0
   \<and> read (initial (line_of [1, 0, 1]) ticking) \<noteq> None
   \<and> last_write P0 (events (snd (the (read (initial (line_of [1, 0, 1]) ticking))))) = Some 0"
proof -
  let ?s = "initial (line_of [1, 0, 1]) ticking"
  have r: "ready_after ?s 1"
    by (simp add: ready_after_def initial_def line_of_def levels_One)
  obtain v s' where e: "read ?s = Some (v, s')"
    using read_eq [OF r] by simp
  have p: "PD_SCK s' = P0"
    using read_eq [OF r] e by (auto simp: initial_def)
  from read_leaves_clock_low [THEN conjunct1, rule_format, OF e] e p show ?thesis
    by (simp add: initial_def)
qed

text \<open>
  C3, as the code has it. \<open>read\<close> makes no call that disables or restores interrupts:
  what it adds to the trace is the readiness polls, the 24 bit cycles and the trailing
  pulses, and neither \<open>NoInterrupts\<close> nor \<open>Interrupts\<close> is among them. The shift-in
  and the pulse train run in whatever preemption state the caller is in.
\<close>

theorem read_makes_no_interrupt_call:
  assumes "read s = Some (v, s')"
  shows "\<exists>j. events s' = events s @ read_events s j (GAIN s)
           \<and> NoInterrupts \<notin> set (read_events s j (GAIN s))
           \<and> Interrupts \<notin> set (read_events s j (GAIN s))"
proof -
  obtain j where
    "s' = s\<lparr>nread := nread s + j + 25, events := events s @ read_events s j (GAIN s)\<rparr>"
    using read_Some_eq [OF assms] by blast
  then have "events s' = events s @ read_events s j (GAIN s)" by simp
  then show ?thesis using no_irq_read_events by blast
qed

theorem read_makes_no_interrupt_call_witness:
  "read (initial (line_of [1, 0, 1]) ticking) \<noteq> None
   \<and> events (snd (the (read (initial (line_of [1, 0, 1]) ticking))))
       = read_events (initial (line_of [1, 0, 1]) ticking) 1 0"
proof -
  let ?s = "initial (line_of [1, 0, 1]) ticking"
  have r: "ready_after ?s 1"
    by (simp add: ready_after_def initial_def line_of_def levels_One)
  obtain v s' where e: "read ?s = Some (v, s')"
    using read_eq [OF r] by simp
  have "events s' = read_events ?s 1 0"
    using read_eq [OF r] e by (auto simp: initial_def)
  with read_makes_no_interrupt_call [OF e] e show ?thesis by simp
qed

text \<open>
  C3, as the claim states it, fails: in the run of \<open>read\<close> from the initial state on a
  line that is ready at once, no call disabling interrupts is in the trace.
\<close>

theorem read_interrupts_counterexample:
  "read (initial (line_of []) ticking) \<noteq> None
   \<and> NoInterrupts \<notin> set (events (snd (the (read (initial (line_of []) ticking)))))"
proof -
  let ?s = "initial (line_of []) ticking"
  have r: "ready_after ?s 0"
    by (simp add: ready_after_def initial_def line_of_def)
  have "events (snd (the (read ?s))) = read_events ?s 0 0"
    using read_eq [OF r] by (simp add: initial_def)
  then show ?thesis using read_eq [OF r] no_irq_read_events by simp
qed

text \<open>
  C8. \<open>wait_ready_retry k pollMs\<close> always returns, having read the data line at most
  \<open>k\<close> times. It returns true exactly when one of the first \<open>k\<close> reads answers ready,
  and then the read that answered ready is the last it made; it returns false exactly
  when all \<open>k\<close> reads answer not ready, and then it made all \<open>k\<close>. With \<open>k = 0\<close> it
  returns false and leaves the state, trace included, as it was.
\<close>

theorem wait_ready_retry_checks:
  assumes "wait_ready_retry k pollMs s = (r, s')"
  shows "(\<exists>m \<le> nat k. nread s' = nread s + m
            \<and> (r \<longrightarrow> 0 < m \<and> ready_after s (m - 1))
            \<and> (\<not> r \<longrightarrow> m = nat k))
         \<and> (r \<longleftrightarrow> (\<exists>l \<in> set (levels (line s) (nread s) (nat k)). l = 0))
         \<and> (k = 0 \<longrightarrow> \<not> r \<and> s' = s)"
proof (cases "\<exists>l \<in> set (levels (line s) (nread s) (nat k)). l = 0")
  case True
  then obtain j where j: "j < nat k" "ready_after s j"
    using first_ready by blast
  then have "int j < k - 0" by simp
  from wrr_loop_ready [OF j(2) this, of pollMs] assms
  have "r" "nread s' = nread s + (j + 1)"
    by (auto simp: wait_ready_retry_def)
  then show ?thesis using True j by auto
next
  case False
  then have "\<forall>l \<in> set (levels (line s) (nread s) (nat k)). l \<noteq> 0" by blast
  from wrr_loop_exhaust [OF this, of k 0 pollMs] assms
  have r: "\<not> r" "s' = s\<lparr>nread := nread s + nat k,
      events := events s @ poll_events (DOUT s) pollMs (levels (line s) (nread s) (nat k))\<rparr>"
    by (auto simp: wait_ready_retry_def)
  then have "k = 0 \<longrightarrow> s' = s" by (simp add: poll_events_def)
  then show ?thesis using False r by auto
qed

theorem wait_ready_retry_checks_witness:
  "wait_ready_retry 3 5 (initial (line_of [1, 0, 1, 1]) ticking)
     = (True, (initial (line_of [1, 0, 1, 1]) ticking)
                \<lparr>nread := 2, events := [DigitalRead P8 1, Pause 5, DigitalRead P8 0]\<rparr>)
   \<and> ready_after (initial (line_of [1, 0, 1, 1]) ticking) 1
   \<and> wait_ready_retry 2 5 (initial (line_of [1, 1, 0]) ticking)
     = (False, (initial (line_of [1, 1, 0]) ticking)
                \<lparr>nread := 2, events := [DigitalRead P8 1, Pause 5, DigitalRead P8 1, Pause 5]\<rparr>)
   \<and> 0 \<notin> set (levels (line_of [1, 1, 0]) 0 2)
   \<and> wait_ready_retry 0 5 (initial (line_of []) ticking)
     = (False, initial (line_of []) ticking)"
proof -
  have a: "wait_ready_retry 3 5 (initial (line_of [1, 0, 1, 1]) ticking)
     = (True, (initial (line_of [1, 0, 1, 1]) ticking)
                \<lparr>nread := 2, events := [DigitalRead P8 1, Pause 5, DigitalRead P8 0]\<rparr>)"
    by (simp add: wait_ready_retry_def wait_ready_retry_loop.simps is_ready_def
        digitalReadPin_def pause_def initial_def line_of_def)
  have b: "wait_ready_retry 2 5 (initial (line_of [1, 1, 0]) ticking)
     = (False, (initial (line_of [1, 1, 0]) ticking)
                \<lparr>nread := 2, events := [DigitalRead P8 1, Pause 5, DigitalRead P8 1, Pause 5]\<rparr>)"
    by (simp add: wait_ready_retry_def wait_ready_retry_loop.simps is_ready_def
        digitalReadPin_def pause_def initial_def line_of_def)
  obtain r s' where c: "wait_ready_retry 0 5 (initial (line_of []) ticking) = (r, s')"
    by (cases "wait_ready_retry 0 5 (initial (line_of []) ticking)")
  have a': "ready_after (initial (line_of [1, 0, 1, 1]) ticking) 1"
    using wait_ready_retry_checks [OF a] by (auto simp: initial_def)
  have b': "0 \<notin> set (levels (line_of [1, 1, 0]) 0 2)"
    using wait_ready_retry_checks [OF b] by (auto simp: initial_def)
  have c': "\<not> r \<and> s' = initial (line_of []) ticking"
    using wait_ready_retry_checks [OF c] by simp
  show ?thesis using a b c a' b' c' by simp
qed




text \<open>
  C5. When \<open>read_average n\<close> returns \<open>a\<close>, \<open>get_value n\<close> returns \<open>a\<close> minus the
  offset and \<open>get_units n\<close> returns that difference times the calibration ratio,
  divided by the scale, both in the state \<open>read_average\<close> leaves; offset, scale and
  calibration ratio are in that state what they were before. When \<open>read_average n\<close>
  does not return, neither does.
\<close>

theorem get_value_get_units:
  "(read_average n s = Some (a, s1) \<longrightarrow>
      get_value n s = Some (num_sub a (OFFSET s), s1)
      \<and> get_units n s
          = Some (num_div (num_mul (num_sub a (OFFSET s)) (CAL_RATIO s)) (SCALE s), s1)
      \<and> OFFSET s1 = OFFSET s \<and> SCALE s1 = SCALE s \<and> CAL_RATIO s1 = CAL_RATIO s)
   \<and> (read_average n s = None \<longrightarrow> get_value n s = None \<and> get_units n s = None)"
proof (intro conjI impI)
  assume a: "read_average n s = Some (a, s1)"
  have k: "OFFSET s1 = OFFSET s" "SCALE s1 = SCALE s" "CAL_RATIO s1 = CAL_RATIO s"
    using vars_kept_read_average [OF a] by (simp_all add: vars_kept_def)
  show "get_value n s = Some (num_sub a (OFFSET s), s1)"
    using a k by (simp add: get_value_def)
  show "get_units n s
      = Some (num_div (num_mul (num_sub a (OFFSET s)) (CAL_RATIO s)) (SCALE s), s1)"
    using a k by (simp add: get_units_def get_value_def)
  show "OFFSET s1 = OFFSET s" "SCALE s1 = SCALE s" "CAL_RATIO s1 = CAL_RATIO s"
    by (rule k)+
next
  assume "read_average n s = None"
  then show "get_value n s = None" "get_units n s = None"
    by (simp_all add: get_units_def get_value_def)
qed

theorem get_value_get_units_witness:
  "map_option fst (read_average 3
      ((initial (line_of []) ticking)\<lparr>OFFSET := Fin 2, SCALE := Fin 4, CAL_RATIO := Fin 3\<rparr>))
     = Some (Fin 0)
   \<and> map_option fst (get_value 3
      ((initial (line_of []) ticking)\<lparr>OFFSET := Fin 2, SCALE := Fin 4, CAL_RATIO := Fin 3\<rparr>))
     = Some (Fin (- 2))
   \<and> map_option fst (get_units 3
      ((initial (line_of []) ticking)\<lparr>OFFSET := Fin 2, SCALE := Fin 4, CAL_RATIO := Fin 3\<rparr>))
     = Some (Fin (- 3 / 2))
   \<and> read_average 3 (initial stuck_high ticking) = None
   \<and> get_value 3 (initial stuck_high ticking) = None
   \<and> get_units 3 (initial stuck_high ticking) = None"
proof -
  define s where
    "s = (initial (line_of []) ticking)\<lparr>OFFSET := Fin 2, SCALE := Fin 4, CAL_RATIO := Fin 3\<rparr>"
  have "line s = line_of []" by (simp add: s_def initial_def)
  then obtain s1 where e: "read_average 3 s = Some (Fin 0, s1)"
    using read_average_idle [of s 3] by auto
  have a1: "num_sub (Fin 0) (Fin 2) = Fin (- 2)"
    using round64_int [of "- 2"] by (simp add: num_sub_def num_add_def)
  have "num_mul (Fin (- 2)) (Fin 3) = Fin (- 6)"
    using round64_int [of "- 6"] by (simp add: num_mul_def)
  moreover have "round64 (- 6 / 4) = Fin (- 3 / 2)"
    by (rule round64_eqI [where e = 0 and n = 6755399441055744])
       (simp_all add: pow2_def round_half_even_def Let_def floor_rat_numeral_div)
  ultimately have a2: "num_div (num_mul (Fin (- 2)) (Fin 3)) (Fin 4) = Fin (- 3 / 2)"
    by (simp add: num_div_def)
  note a = a1 a2
  have v: "OFFSET s = Fin 2" "SCALE s = Fin 4" "CAL_RATIO s = Fin 3"
    by (simp_all add: s_def)
  have n: "read_average 3 (initial stuck_high ticking) = None"
    by (rule read_average_never_ready) (simp_all add: initial_def)
  from get_value_get_units [THEN conjunct1, rule_format, OF e]
    get_value_get_units [THEN conjunct2, rule_format, OF n] e n
  show ?thesis
    unfolding s_def [symmetric]
    by (simp add: v a)
qed

text \<open>
  C6. When \<open>get_value 10\<close> returns \<open>x\<close>, \<open>calibrate w\<close> returns, with the calibration
  ratio set to \<open>w / (x / scale)\<close> and offset and scale as they were; \<open>x\<close> is the sum
  of exactly ten consecutive reads divided by 10, minus the offset, in the code's own
  arithmetic. It returns in the same way when \<open>x\<close> is a zero, and the ratio it stores
  is then an infinity or NaN. It fails to return only when \<open>get_value 10\<close> does.
\<close>

theorem calibrate_sets_ratio:
  "(get_value 10 s = Some (x, s1) \<longrightarrow>
      calibrate w s = Some (s1\<lparr>CAL_RATIO := num_div w (num_div x (SCALE s))\<rparr>)
      \<and> OFFSET (s1\<lparr>CAL_RATIO := num_div w (num_div x (SCALE s))\<rparr>) = OFFSET s
      \<and> SCALE (s1\<lparr>CAL_RATIO := num_div w (num_div x (SCALE s))\<rparr>) = SCALE s
      \<and> (\<exists>vs. length vs = 10 \<and> read_seq 10 s = Some (vs, s1)
             \<and> x = num_sub (num_div (Fin (of_int (sum_list vs))) (Fin 10)) (OFFSET s))
      \<and> (is_zero x \<longrightarrow> \<not> is_finite (num_div w (num_div x (SCALE s)))))
   \<and> (get_value 10 s = None \<longrightarrow> calibrate w s = None)"
proof (intro conjI impI)
  assume g: "get_value 10 s = Some (x, s1)"
  then obtain a where a: "read_average 10 s = Some (a, s1)" and x: "x = num_sub a (OFFSET s1)"
    by (auto simp: get_value_def split: option.splits)
  have k: "OFFSET s1 = OFFSET s" "SCALE s1 = SCALE s"
    using vars_kept_read_average [OF a] by (simp_all add: vars_kept_def)
  show "calibrate w s = Some (s1\<lparr>CAL_RATIO := num_div w (num_div x (SCALE s))\<rparr>)"
    using g k by (simp add: calibrate_def)
  show "OFFSET (s1\<lparr>CAL_RATIO := num_div w (num_div x (SCALE s))\<rparr>) = OFFSET s"
    "SCALE (s1\<lparr>CAL_RATIO := num_div w (num_div x (SCALE s))\<rparr>) = SCALE s"
    using k by simp_all
  have ten: "num_of_int 10 = Fin 10"
    using num_of_int_exact [of 10] by simp
  from a obtain vs where vs: "read_seq 10 s = Some (vs, s1)"
    and a': "a = num_div (Fin (of_int (sum_list vs))) (Fin 10)"
    by (auto simp: read_average_eq ten split: option.splits)
  have "length vs = 10" using length_read_seq [OF vs] .
  then show "\<exists>vs. length vs = 10 \<and> read_seq 10 s = Some (vs, s1)
      \<and> x = num_sub (num_div (Fin (of_int (sum_list vs))) (Fin 10)) (OFFSET s)"
    using vs x k a' by auto
  show "\<not> is_finite (num_div w (num_div x (SCALE s)))" if "is_zero x"
    using that by (rule not_finite_over_zero)
next
  assume "get_value 10 s = None"
  then show "calibrate w s = None" by (simp add: calibrate_def)
qed

theorem calibrate_sets_ratio_witness:
  "map_option fst (get_value 10 (initial (line_of []) ticking)) = Some (Fin 0)
   \<and> map_option CAL_RATIO (calibrate (Fin 5) (initial (line_of []) ticking)) = Some PosInf
   \<and> map_option CAL_RATIO (calibrate (Fin 0) (initial (line_of []) ticking)) = Some NaN
   \<and> map_option fst (get_value 10 (initial (line_of [0, 0, 0, 0, 0, 0, 0, 0, 0, 0, 0, 0, 0,
        0, 0, 0, 0, 0, 0, 0, 0, 0, 0, 0, 1]) ticking))
       = Some (Fin (3602879701896397 / 36028797018963968))
   \<and> map_option CAL_RATIO (calibrate (Fin 5) (initial (line_of [0, 0, 0, 0, 0, 0, 0, 0, 0, 0, 0, 0, 0,
        0, 0, 0, 0, 0, 0, 0, 0, 0, 0, 0, 1]) ticking)) = Some (Fin 50)
   \<and> map_option fst (get_value 10
        (set_offset (num_div (Fin 1) (Fin 10)) (initial (line_of [0, 0, 0, 0, 0, 0, 0, 0, 0, 0, 0, 0, 0,
        0, 0, 0, 0, 0, 0, 0, 0, 0, 0, 0, 1]) ticking)))
       = Some (Fin 0)
   \<and> map_option CAL_RATIO (calibrate (Fin 5)
        (set_offset (num_div (Fin 1) (Fin 10)) (initial (line_of [0, 0, 0, 0, 0, 0, 0, 0, 0, 0, 0, 0, 0,
        0, 0, 0, 0, 0, 0, 0, 0, 0, 0, 0, 1]) ticking)))
       = Some PosInf
   \<and> get_value 10 (initial stuck_high ticking) = None
   \<and> calibrate (Fin 5) (initial stuck_high ticking) = None"
proof -
  define s where "s = initial (line_of []) ticking"
  have l: "line s = line_of []" by (simp add: s_def initial_def)
  obtain s1 where a: "read_average 10 s = Some (Fin 0, s1)"
    using read_average_idle [OF l, of 10] by auto
  have o: "OFFSET s1 = Fin 0"
    using vars_kept_read_average [OF a] by (simp add: vars_kept_def s_def initial_def)
  have z: "num_sub (Fin 0) (Fin 0) = Fin 0" by (rule num_sub_self)
  have g: "get_value 10 s = Some (Fin 0, s1)"
    using a o by (simp add: get_value_def z)
  have sc: "SCALE s = Fin 1" by (simp add: s_def initial_def)
  have d: "num_div (Fin 5) (num_div (Fin 0) (Fin 1)) = PosInf"
    "num_div (Fin 0) (num_div (Fin 0) (Fin 1)) = NaN"
    by (simp_all add: num_div_def signed_zero_def signed_inf_def)
  have first: "map_option fst (get_value 10 s) = Some (Fin 0)
     \<and> map_option CAL_RATIO (calibrate (Fin 5) s) = Some PosInf
     \<and> map_option CAL_RATIO (calibrate (Fin 0) s) = Some NaN"
    using calibrate_sets_ratio [THEN conjunct1, rule_format, OF g, of "Fin 5"]
      calibrate_sets_ratio [THEN conjunct1, rule_format, OF g, of "Fin 0"] g
    by (simp add: sc d)
  define t where "t = initial (line_of [0, 0, 0, 0, 0, 0, 0, 0, 0, 0, 0, 0, 0,
        0, 0, 0, 0, 0, 0, 0, 0, 0, 0, 0, 1]) ticking"
  define u where "u = set_offset (num_div (Fin 1) (Fin 10)) t"
  have lt: "line t = line_of [0, 0, 0, 0, 0, 0, 0, 0, 0, 0, 0, 0, 0,
        0, 0, 0, 0, 0, 0, 0, 0, 0, 0, 0, 1]" "nread t = 0" "line u = line_of [0, 0, 0, 0, 0, 0, 0, 0, 0, 0, 0, 0, 0,
        0, 0, 0, 0, 0, 0, 0, 0, 0, 0, 0, 1]" "nread u = 0"
    by (simp_all add: t_def u_def initial_def set_offset_def)
  have f1: "num_div (Fin 1) (num_of_int 10) = Fin (3602879701896397 / 36028797018963968)"
    using num_div_int [of 10 1] by (simp add: round64_tenth)
  have f2: "num_div (Fin 1) (Fin 10) = Fin (3602879701896397 / 36028797018963968)"
    by (simp add: num_div_def round64_tenth)
  have f3: "num_sub (Fin (3602879701896397 / 36028797018963968)) (Fin 0)
      = Fin (3602879701896397 / 36028797018963968)"
    by (simp add: num_sub_def num_add_def round64_tenth)
  have f4: "num_sub (Fin (3602879701896397 / 36028797018963968))
       (Fin (3602879701896397 / 36028797018963968)) = Fin 0"
    by (rule num_sub_self)
  have "round64 (5 / (3602879701896397 / 36028797018963968)) = Fin 50"
    by (rule round64_eqI [where e = 5 and n = 7036874417766400])
       (simp_all add: pow2_def round_half_even_def Let_def floor_rat_numeral_div)
  then have f5: "num_div (Fin 5) (num_div (Fin (3602879701896397 / 36028797018963968)) (Fin 1))
      = Fin 50"
    by (simp add: num_div_def round64_tenth)
  note tenth = f1 f2 f3 f4 f5
  obtain t1 where rt: "read_seq (Suc 9) t = Some (1 # replicate 9 0, t1)"
    using read_seq_one [OF lt(1,2)] by blast
  obtain u1 where ru: "read_seq (Suc 9) u = Some (1 # replicate 9 0, u1)"
    using read_seq_one [OF lt(3,4)] by blast
  have n10: "nat 10 = Suc 9" by simp
  have at: "read_average 10 t = Some (Fin (3602879701896397 / 36028797018963968), t1)"
    using rt by (simp add: read_average_eq n10 sum_list_replicate tenth(1))
  have au: "read_average 10 u = Some (Fin (3602879701896397 / 36028797018963968), u1)"
    using ru by (simp add: read_average_eq n10 sum_list_replicate tenth(1))
  have ot: "OFFSET t1 = Fin 0" "SCALE t = Fin 1"
    using vars_kept_read_average [OF at] by (simp_all add: vars_kept_def t_def initial_def)
  have ou: "OFFSET u1 = Fin (3602879701896397 / 36028797018963968)" "SCALE u = Fin 1"
    using vars_kept_read_average [OF au]
    by (simp_all add: vars_kept_def u_def t_def initial_def set_offset_def tenth(2))
  have gt: "get_value 10 t = Some (Fin (3602879701896397 / 36028797018963968), t1)"
    using at ot by (simp add: get_value_def tenth(3))
  have gu: "get_value 10 u = Some (Fin 0, u1)"
    using au ou by (simp add: get_value_def tenth(4))
  have second: "map_option fst (get_value 10 t)
       = Some (Fin (3602879701896397 / 36028797018963968))
     \<and> map_option CAL_RATIO (calibrate (Fin 5) t) = Some (Fin 50)"
    using calibrate_sets_ratio [THEN conjunct1, rule_format, OF gt, of "Fin 5"] gt
    by (simp add: ot tenth(5))
  have third: "map_option fst (get_value 10 u) = Some (Fin 0)
     \<and> map_option CAL_RATIO (calibrate (Fin 5) u) = Some PosInf"
    using calibrate_sets_ratio [THEN conjunct1, rule_format, OF gu, of "Fin 5"] gu
    by (simp add: ou d)
  have "read_average 10 (initial stuck_high ticking) = None"
    by (rule read_average_never_ready) (simp_all add: initial_def)
  then have n: "get_value 10 (initial stuck_high ticking) = None"
    by (simp add: get_value_def)
  have fourth: "calibrate (Fin 5) (initial stuck_high ticking) = None"
    using calibrate_sets_ratio [THEN conjunct2, rule_format, OF n, of "Fin 5"] .
  show ?thesis
    using first second third n fourth unfolding s_def t_def u_def by simp
qed

text \<open>
  C9, as the code has it. In every state that a sequence of calls reaches from the
  initial state, the pulse count is one of 0, 1, 3, 2: it is 0 when the module is
  loaded, and once it is one of 1, 3, 2 every call keeps it so. A call changes it only
  if it is \<open>set_gain\<close> with 128, 64 or 32, or \<open>begin\<close> (which calls \<open>set_gain(128)\<close>);
  \<open>set_gain\<close> with any other argument leaves it as it was.
\<close>

theorem gain_selector_invariant:
  "(run cs (initial env clk) = Some s0 \<longrightarrow> GAIN s0 \<in> {0, 1, 3, 2})
   \<and> (GAIN s \<in> {1, 3, 2} \<and> exec c s = Some s' \<longrightarrow> GAIN s' \<in> {1, 3, 2})
   \<and> (exec c s = Some s' \<and> GAIN s' \<noteq> GAIN s \<longrightarrow>
        c = SetGain 128 \<or> c = SetGain 64 \<or> c = SetGain 32 \<or> (\<exists>d k. c = Begin d k))
   \<and> (set_gain gain s = Some s' \<longrightarrow>
        GAIN s' = (if gain = 128 then 1 else if gain = 64 then 3
                   else if gain = 32 then 2 else GAIN s))"
proof (intro conjI impI)
  assume "run cs (initial env clk) = Some s0"
  then show "GAIN s0 \<in> {0, 1, 3, 2}" by (rule run_GAIN_range)
next
  assume "GAIN s \<in> {1, 3, 2} \<and> exec c s = Some s'"
  then show "GAIN s' \<in> {1, 3, 2}" using exec_GAIN_cases [of c s s'] by auto
next
  assume a: "exec c s = Some s' \<and> GAIN s' \<noteq> GAIN s"
  then have sel: "selects_gain c" using exec_GAIN [of c s s'] by blast
  show "c = SetGain 128 \<or> c = SetGain 64 \<or> c = SetGain 32 \<or> (\<exists>d k. c = Begin d k)"
  proof (cases c)
    case (SetGain gain)
    then have "set_gain gain s = Some s'" using a by simp
    from set_gain_GAIN [OF this] a SetGain show ?thesis by (auto split: if_splits)
  qed (use sel in auto)
next
  assume "set_gain gain s = Some s'"
  then show "GAIN s' = (if gain = 128 then 1 else if gain = 64 then 3
                   else if gain = 32 then 2 else GAIN s)"
    by (rule set_gain_GAIN)
qed

theorem gain_selector_invariant_witness:
  "\<exists>s1 s2 s3. run [SetGain 5] (initial (line_of []) ticking) = Some s1 \<and> GAIN s1 = 0
     \<and> run [SetGain 5, SetGain 64] (initial (line_of []) ticking) = Some s2 \<and> GAIN s2 = 3
     \<and> exec Read s2 = Some s3 \<and> GAIN s3 \<in> {1, 3, 2}"
proof -
  define s where "s = initial (line_of []) ticking"
  have l: "line s = line_of []" and g: "GAIN s = 0" by (simp_all add: s_def initial_def)
  obtain s1 where s1: "set_gain 5 s = Some s1" "line s1 = line_of []"
    using set_gain_idle [OF l] by blast
  obtain s2 where s2: "set_gain 64 s1 = Some s2" "line s2 = line_of []"
    using set_gain_idle [OF s1(2)] by blast
  obtain s3 where s3: "exec Read s2 = Some s3"
    using read_idle [OF s2(2)] by simp
  have r1: "run [SetGain 5] s = Some s1" and r2: "run [SetGain 5, SetGain 64] s = Some s2"
    using s1(1) s2(1) by simp_all
  note inv = gain_selector_invariant [of _ "line_of []" ticking, folded s_def]
  have g1: "GAIN s1 = 0"
    using inv [THEN conjunct2, THEN conjunct2, THEN conjunct2, rule_format, OF s1(1)] g
    by simp
  have g2: "GAIN s2 = 3"
    using inv [THEN conjunct2, THEN conjunct2, THEN conjunct2, rule_format, OF s2(1)]
    by simp
  have "GAIN s2 \<in> {0, 1, 3, 2}"
    using inv [THEN conjunct1, rule_format, OF r2] .
  have e: "exec (SetGain 64) s1 = Some s2 \<and> GAIN s2 \<noteq> GAIN s1"
    using s2(1) g1 g2 by simp
  have "SetGain 64 = SetGain 128 \<or> SetGain 64 = SetGain 64 \<or> SetGain 64 = SetGain 32
      \<or> (\<exists>d k. SetGain 64 = Begin d k)"
    using inv [THEN conjunct2, THEN conjunct2, THEN conjunct1, rule_format, OF e] .
  have "GAIN s2 \<in> {1, 3, 2} \<and> exec Read s2 = Some s3" using g2 s3 by simp
  then have g3: "GAIN s3 \<in> {1, 3, 2}"
    using inv [THEN conjunct2, THEN conjunct1, rule_format] by blast
  show ?thesis using r1 r2 g1 g2 s3 g3 unfolding s_def by blast
qed

text \<open>
  C9, as the claim states it, fails: when the module is loaded the pulse count is 0,
  and it is still 0 after \<open>set_gain(5)\<close> and a \<open>read\<close>.
\<close>

theorem gain_selector_counterexample:
  "GAIN (initial (line_of []) ticking) \<notin> {1, 3, 2}
   \<and> map_option GAIN (run [SetGain 5, Read] (initial (line_of []) ticking)) = Some 0"
proof -
  define s where "s = initial (line_of []) ticking"
  have l: "line s = line_of []" and g: "GAIN s = 0" by (simp_all add: s_def initial_def)
  obtain s1 where s1: "set_gain 5 s = Some s1" "line s1 = line_of []"
    using set_gain_idle [OF l] by blast
  have g1: "GAIN s1 = 0" using set_gain_GAIN [OF s1(1)] g by simp
  have "map_option GAIN (run [SetGain 5, Read] s) = Some 0"
    using s1 g1 by (simp add: read_idle)
  then show ?thesis using g unfolding s_def by simp
qed

text \<open>
  C2. Once the data line reads ready, \<open>set_gain\<close> with 128, 64 or 32 returns, with the
  pulse count 1, 3 or 2 respectively. The \<open>read\<close> that \<open>set_gain\<close> itself makes, and
  every \<open>read\<close> made after any sequence of calls other than \<open>set_gain\<close> and
  \<open>begin\<close>, returns once the line reads ready and adds to the trace its readiness
  polls, the 24 bit cycles, and then exactly that many trailing pulses and nothing
  more; a pulse is clock high, hold, clock low, hold.
\<close>

theorem set_gain_trailing_pulses:
  assumes "(gain, k) \<in> {(128, 1), (64, 3), (32, 2)}" and "ready_after s i"
  shows "\<exists>s1. set_gain gain s = Some s1 \<and> GAIN s1 = k
     \<and> events s1 = events s @ [DigitalWrite (PD_SCK s) 0] @ read_events s i k
     \<and> (\<forall>cs t j. (\<forall>c \<in> set cs. \<not> selects_gain c) \<and> run cs s1 = Some t \<and> ready_after t j
           \<longrightarrow> (\<exists>v t'. read t = Some (v, t')
                 \<and> events t' = events t
                     @ poll_events (DOUT t) 0 (levels (line t) (nread t) j)
                     @ [DigitalRead (DOUT t) 0]
                     @ shift_events (PD_SCK t) (DOUT t) (levels (line t) (nread t + j + 1) 24)
                     @ concat (replicate k (gain_pulse (PD_SCK t)))))
     \<and> gain_pulse sck = [DigitalWrite sck 1, WaitMicros 1, DigitalWrite sck 0, WaitMicros 1]"
proof -
  have k: "k = (if gain = 128 then 1 else if gain = 64 then 3
                else if gain = 32 then 2 else GAIN s)"
    using assms(1) by auto
  define s2 where "s2 = s\<lparr>GAIN := k, events := events s @ [DigitalWrite (PD_SCK s) 0]\<rparr>"
  define s1 where "s1 = s2\<lparr>nread := nread s2 + i + 25,
      events := events s2 @ read_events s2 i (GAIN s2)\<rparr>"
  have u: "set_gain gain s = (case read s2 of None \<Rightarrow> None | Some (v, s3) \<Rightarrow> Some s3)"
    unfolding s2_def k by (simp add: set_gain_def Let_def digitalWritePin_def)
  have "ready_after s2 i" using assms(2) by (simp add: ready_after_def s2_def)
  from read_eq [OF this] have sg: "set_gain gain s = Some s1"
    unfolding u by (simp add: s1_def)
  have g1: "GAIN s1 = k" by (simp add: s1_def s2_def)
  have re: "read_events s2 i (GAIN s2) = read_events s i k"
    by (simp add: s2_def read_events_def)
  have ev: "events s1 = events s @ [DigitalWrite (PD_SCK s) 0] @ read_events s i k"
    unfolding s1_def re by (simp add: s2_def)
  have later: "\<exists>v t'. read t = Some (v, t')
      \<and> events t' = events t
          @ poll_events (DOUT t) 0 (levels (line t) (nread t) j)
          @ [DigitalRead (DOUT t) 0]
          @ shift_events (PD_SCK t) (DOUT t) (levels (line t) (nread t + j + 1) 24)
          @ concat (replicate k (gain_pulse (PD_SCK t)))"
    if h: "(\<forall>c \<in> set cs. \<not> selects_gain c) \<and> run cs s1 = Some t \<and> ready_after t j"
    for cs t j
  proof -
    have gt: "GAIN t = k" using run_GAIN [of cs s1 t] h g1 by simp
    have r: "ready_after t j" using h by simp
    show ?thesis
      unfolding read_eq [OF r] by (simp add: gt read_events_def)
  qed
  have gp: "gain_pulse sck = [DigitalWrite sck 1, WaitMicros 1, DigitalWrite sck 0, WaitMicros 1]"
    by (simp add: gain_pulse_def)
  show ?thesis using sg g1 ev later gp by blast
qed

theorem set_gain_trailing_pulses_witness:
  "ready_after (initial (line_of [1, 0]) ticking) 1
   \<and> (\<exists>s1 t v t'. set_gain 64 (initial (line_of [1, 0]) ticking) = Some s1
     \<and> GAIN s1 = 3
     \<and> events s1 = [DigitalWrite P0 0] @ read_events (initial (line_of [1, 0]) ticking) 1 3
     \<and> run [GetScale, Read, SetOffset (Fin 1)] s1 = Some t
     \<and> ready_after t 0
     \<and> read t = Some (v, t')
     \<and> events t' = events t
            @ poll_events (DOUT t) 0 (levels (line t) (nread t) 0) @ [DigitalRead (DOUT t) 0]
            @ shift_events (PD_SCK t) (DOUT t) (levels (line t) (nread t + 0 + 1) 24)
            @ concat (replicate 3 (gain_pulse (PD_SCK t))))"
proof -
  define s where "s = initial (line_of [1, 0]) ticking"
  have r: "ready_after s 1"
    by (simp add: s_def ready_after_def initial_def line_of_def levels_One)
  have m: "(64, 3) \<in> {(128, 1), (64, 3), (32, 2 :: nat)}" by simp
  from set_gain_trailing_pulses [OF m r] obtain s1 where
    sg: "set_gain 64 s = Some s1" and g1: "GAIN s1 = 3"
    and ev: "events s1 = events s @ [DigitalWrite (PD_SCK s) 0] @ read_events s 1 3"
    and later: "\<And>cs t j. (\<forall>c \<in> set cs. \<not> selects_gain c) \<and> run cs s1 = Some t
        \<and> ready_after t j \<Longrightarrow>
        \<exists>v t'. read t = Some (v, t')
          \<and> events t' = events t
              @ poll_events (DOUT t) 0 (levels (line t) (nread t) j)
              @ [DigitalRead (DOUT t) 0]
              @ shift_events (PD_SCK t) (DOUT t) (levels (line t) (nread t + j + 1) 24)
              @ concat (replicate 3 (gain_pulse (PD_SCK t)))"
    by blast
  obtain j where s1: "s1 = s\<lparr>GAIN := 3, nread := nread s + j + 25,
      events := events s @ [DigitalWrite (PD_SCK s) 0] @ read_events s j 3\<rparr>"
    using set_gain_Some [OF sg, of 3] by auto
  have q1: "\<forall>k \<ge> nread s1. line s1 k = 0"
    by (simp add: s1 s_def initial_def line_of_def)
  have r1: "ready_after s1 0" using q1 by (simp add: ready_after_def)
  define t where "t = set_offset (Fin 1)
      (s1\<lparr>nread := nread s1 + 0 + 25,
          events := events s1 @ read_events s1 0 (GAIN s1)\<rparr>)"
  have rn: "run [GetScale, Read, SetOffset (Fin 1)] s1 = Some t"
    by (simp add: read_eq [OF r1] t_def)
  have rt: "ready_after t 0"
    using q1 by (simp add: t_def set_offset_def ready_after_def)
  have c: "\<forall>c \<in> set [GetScale, Read, SetOffset (Fin 1)]. \<not> selects_gain c" by simp
  from later [of "[GetScale, Read, SetOffset (Fin 1)]" t 0] c rn rt obtain v t' where
    "read t = Some (v, t')" "events t' = events t
        @ poll_events (DOUT t) 0 (levels (line t) (nread t) 0) @ [DigitalRead (DOUT t) 0]
        @ shift_events (PD_SCK t) (DOUT t) (levels (line t) (nread t + 0 + 1) 24)
        @ concat (replicate 3 (gain_pulse (PD_SCK t)))"
    by blast
  moreover have "events s1 = [DigitalWrite P0 0] @ read_events s 1 3"
    using ev by (simp add: s_def initial_def)
  ultimately show ?thesis
    using r sg g1 rn rt unfolding s_def by blast
qed

end
